theory Spec2Isabelle
  imports Main "HOL-Library.Sublist"
begin

section \<open>GithubFlowManager: data model\<close>

text \<open>
  A shallow embedding of \<^verbatim>\<open>creation/github/GithubFlowManager.js\<close>. The class's fields are
  one record, every method is a function on that record, and the collaborators the class
  talks to (the creation and credentials APIs, \<^verbatim>\<open>sseService\<close>, the timer queue) are
  explicit: what an API call answers is a parameter of the method that makes the call,
  and the handlers and timers registered with the environment are fields of the state.
  JavaScript identifiers starting with an underscore lose it (\<^verbatim>\<open>_cleanupListeners\<close> is
  \<open>cleanupListeners\<close>).
\<close>

text \<open>
  Modelled from the spec: \<^verbatim>\<open>GithubCreationStatus\<close> is imported and not part of the file; the
  members the class uses are taken as an enumeration.
\<close>

datatype status =
    STEP_CHOOSE_DISCOVER
  | STEP_ALREADY_DISCOVER
  | PENDING_LOADING_REPOSITORIES
  | STEP_CONFIRM_DISCOVER
  | STEP_CHOOSE_REPOSITORY
  | PENDING_CREATION_SAVING
  | STEP_COMPLETE_SUCCESS
  | STEP_COMPLETE_SAVING_ERROR
  | STEP_COMPLETE_EVENT_ERROR
  | STEP_COMPLETE_EVENT_TIMEOUT

text \<open>The step components the class instantiates, by name.\<close>

datatype step =
    GithubLoadingStep
  | GithubCredentialsStep
  | GithubOrgListStep
  | GithubChooseDiscoverStep
  | GithubAlreadyDiscoverStep
  | GithubConfirmDiscoverStep
  | GithubRepositoryStep
  | GithubCompleteStep

text \<open>
  What a promise is rejected with, or what a handler throws: an API error carrying its
  \<^verbatim>\<open>responseBody\<close>, or the \<^verbatim>\<open>TypeError\<close> of a property read on \<^verbatim>\<open>null\<close>/\<^verbatim>\<open>undefined\<close>.
  A settled promise is a value of \<open>error + 'a\<close>.
\<close>

datatype error = TypeError | ApiError string

record credential =
  credentialId :: string

text \<open>The organization's \<^verbatim>\<open>name\<close> field is \<open>org_name\<close> here (records share one name space).\<close>

record organization =
  org_name :: string
  autoDiscover :: bool
  jenkinsOrganizationPipeline :: bool

record repository =
  name :: string
  pipelineCreated :: bool

text \<open>
  The next-page marker of a page response as JavaScript sees it after destructuring:
  \<^verbatim>\<open>null\<close>, \<^verbatim>\<open>undefined\<close> (the property is absent) or a page number.
\<close>

datatype page_marker = PageNull | PageAbsent | PageNum nat

text \<open>The \<^verbatim>\<open>repositories\<close> object of a \<^verbatim>\<open>listRepositories\<close> response.\<close>

record page =
  items :: "repository list"
  nextPage :: page_marker

text \<open>The saved org folder; \<open>self_href\<close> is \<^verbatim>\<open>_links.self.href\<close>.\<close>

record org_folder =
  self_href :: string

record sse_event =
  blueocean_job_rest_url :: string
  jenkins_event :: string
  job_multibranch_indexing_result :: "string option"

text \<open>
  A handle given out by \<^verbatim>\<open>sseService.registerHandler\<close> or \<^verbatim>\<open>setTimeout\<close>. The class only
  tests handles for truthiness; \<open>0\<close> stands for a falsy handle, every other number for a
  truthy one.
\<close>

type_synonym handle = nat

text \<open>The calls made on the two API collaborators, in the order they are made.\<close>

datatype api_call =
    FindExistingCredential
  | CreateAccessToken string
  | ListOrganizations "string option"
  | ListRepositories "string option" string page_marker nat
  | CreateOrgFolder "string option" organization "string list"
  | UpdateOrgFolder "string option" organization "string list"

record token_result =
  success :: bool
  detail :: "string option"

record state =
  status :: "status option"
  organizations :: "organization list"
  repositories :: "repository list"
  selectedOrganization :: "organization option"
  selectedRepository :: "repository option"
  savedOrgFolder :: "org_folder option"
  repositoryCache :: "string \<rightharpoonup> repository list"
  discoverSelection :: "bool option"
  credentialIdField :: "string option"
  sseSubscribeId :: "handle option"
  sseTimeoutId :: "handle option"
  steps :: "step list"
  pendingSteps :: "string list"
  sseHandlers :: "handle set"
  timers :: "handle set"
  apiCalls :: "api_call list"

text \<open>
  \<open>credentialIdField\<close> is the field \<^verbatim>\<open>_credentialId\<close>, \<open>None\<close> where the source has
  \<^verbatim>\<open>null\<close>.
  \<open>steps\<close> and \<open>pendingSteps\<close> belong to the base class \<^verbatim>\<open>FlowManager\<close>; \<open>sseHandlers\<close>
  are the handles under which \<^verbatim>\<open>sseService\<close> holds a handler of this manager, \<open>timers\<close>
  the handles of its pending timeouts, \<open>apiCalls\<close> the API calls made so far.
\<close>

definition MIN_DELAY :: nat where "MIN_DELAY = 500"
definition FIRST_PAGE :: nat where "FIRST_PAGE = 1"
definition PAGE_SIZE :: nat where "PAGE_SIZE = 100"
definition SSE_TIMEOUT_DELAY :: nat where "SSE_TIMEOUT_DELAY = 1000 * 30"

definition initial_state :: state where
  "initial_state = \<lparr>
     status = None, organizations = [], repositories = [],
     selectedOrganization = None, selectedRepository = None, savedOrgFolder = None,
     repositoryCache = Map.empty, discoverSelection = None, credentialIdField = None,
     sseSubscribeId = None, sseTimeoutId = None,
     steps = [GithubLoadingStep], pendingSteps = [],
     sseHandlers = {}, timers = {}, apiCalls = [] \<rparr>"

section \<open>Collaborators\<close>

text \<open>
  Modelled from the spec: the base class \<^verbatim>\<open>flow2/FlowManager\<close> is not part of the file. Its
  step stack has the current step on top (last): push appends, replace swaps only the
  top entry, and the pending steps are a list of names that \<^verbatim>\<open>setPendingSteps()\<close> clears.
\<close>

definition pushStep :: "step \<Rightarrow> state \<Rightarrow> state" where
  "pushStep st s = s\<lparr>steps := steps s @ [st]\<rparr>"

definition replaceCurrentStep :: "step \<Rightarrow> state \<Rightarrow> state" where
  "replaceCurrentStep st s = s\<lparr>steps := butlast (steps s) @ [st]\<rparr>"

definition setPendingSteps :: "string list \<Rightarrow> state \<Rightarrow> state" where
  "setPendingSteps ps s = s\<lparr>pendingSteps := ps\<rparr>"

text \<open>
  Modelled from the spec: \<^verbatim>\<open>flow2/waitAtLeast\<close> is not part of the file. It delays a value
  and passes it through unchanged; time is not modelled, so the delay is ignored.
\<close>

definition waitAtLeast :: "nat \<Rightarrow> 'a \<Rightarrow> error + 'a" where
  "waitAtLeast delay v = Inr v"

text \<open>
  \<^verbatim>\<open>promise.then(onFulfilled)\<close> and \<^verbatim>\<open>promise.then(onFulfilled, onRejected)\<close> on a settled
  promise: without a rejection handler a rejection is passed on to the promise that
  \<^verbatim>\<open>then\<close> returns.
\<close>

definition then1 ::
  "('a \<Rightarrow> state \<Rightarrow> state \<times> (error + 'b)) \<Rightarrow> (error + 'a) \<Rightarrow> state \<Rightarrow> state \<times> (error + 'b)" where
  "then1 onFulfilled p s = (case p of Inl e \<Rightarrow> (s, Inl e) | Inr v \<Rightarrow> onFulfilled v s)"

definition then2 ::
  "('a \<Rightarrow> state \<Rightarrow> state \<times> (error + 'b)) \<Rightarrow> (error \<Rightarrow> state \<Rightarrow> state \<times> (error + 'b))
     \<Rightarrow> (error + 'a) \<Rightarrow> state \<Rightarrow> state \<times> (error + 'b)" where
  "then2 onFulfilled onRejected p s =
     (case p of Inl e \<Rightarrow> onRejected e s | Inr v \<Rightarrow> onFulfilled v s)"

definition delayed :: "(error + 'a) \<Rightarrow> state \<Rightarrow> state \<times> (error + 'a)" where
  "delayed p s = then1 (\<lambda>v s'. (s', waitAtLeast MIN_DELAY v)) p s"

definition callApi :: "api_call \<Rightarrow> state \<Rightarrow> state" where
  "callApi c s = s\<lparr>apiCalls := apiCalls s @ [c]\<rparr>"

text \<open>
  \<^verbatim>\<open>String.prototype.indexOf\<close>: the least position at which the pattern occurs, \<open>-1\<close>
  when it occurs nowhere.
\<close>

fun indexOf_from :: "'a list \<Rightarrow> 'a list \<Rightarrow> nat \<Rightarrow> int" where
  "indexOf_from [] pat k = (if pat = [] then int k else - 1)"
| "indexOf_from (c # cs) pat k =
     (if take (length pat) (c # cs) = pat then int k else indexOf_from cs pat (Suc k))"

definition indexOf :: "'a list \<Rightarrow> 'a list \<Rightarrow> int" where
  "indexOf str pat = indexOf_from str pat 0"

section \<open>The flow manager\<close>

definition setStatus :: "status \<Rightarrow> state \<Rightarrow> state" where
  "setStatus st s = s\<lparr>status := Some st\<rparr>"

definition selectableRepositories_of :: "repository list option \<Rightarrow> repository list" where
  "selectableRepositories_of rs =
     (case rs of None \<Rightarrow> [] | Some xs \<Rightarrow> filter (\<lambda>repo. \<not> pipelineCreated repo) xs)"

definition selectableRepositories :: "state \<Rightarrow> repository list" where
  "selectableRepositories s = selectableRepositories_of (Some (repositories s))"

definition cleanupListeners :: "state \<Rightarrow> state" where
  "cleanupListeners s =
     (let s1 = (case sseSubscribeId s of
                  Some h \<Rightarrow> if h \<noteq> 0
                            then s\<lparr>sseHandlers := sseHandlers s - {h}, sseSubscribeId := None\<rparr>
                            else s
                | None \<Rightarrow> s)
      in (case sseTimeoutId s1 of
            Some t \<Rightarrow> if t \<noteq> 0
                      then s1\<lparr>timers := timers s1 - {t}, sseTimeoutId := None\<rparr>
                      else s1
          | None \<Rightarrow> s1))"

definition destroy :: "state \<Rightarrow> state" where
  "destroy s = cleanupListeners s"

definition updateOrganizations :: "organization list \<Rightarrow> state \<Rightarrow> state" where
  "updateOrganizations orgs s =
     setPendingSteps [''Complete''] (replaceCurrentStep GithubOrgListStep (s\<lparr>organizations := orgs\<rparr>))"

definition listOrganizations ::
  "(error + organization list) \<Rightarrow> state \<Rightarrow> state \<times> (error + unit)" where
  "listOrganizations orgsResponse s =
     (let s1 = callApi (ListOrganizations (credentialIdField s)) s;
          (s2, p) = delayed orgsResponse s1
      in then1 (\<lambda>orgs s'. (updateOrganizations orgs s', Inr ())) p s2)"

definition afterInitialStep ::
  "credential option \<Rightarrow> (error + organization list) \<Rightarrow> state \<Rightarrow> state" where
  "afterInitialStep cred orgsResponse s =
     (case cred of
        Some c \<Rightarrow>
          if credentialId c \<noteq> []
          then fst (listOrganizations orgsResponse (s\<lparr>credentialIdField := Some (credentialId c)\<rparr>))
          else replaceCurrentStep GithubCredentialsStep s
      | None \<Rightarrow> replaceCurrentStep GithubCredentialsStep s)"

definition findExistingCredential ::
  "(error + credential option) \<Rightarrow> (error + organization list) \<Rightarrow> state \<Rightarrow> state \<times> (error + unit)" where
  "findExistingCredential credResponse orgsResponse s =
     (let s1 = callApi FindExistingCredential s;
          (s2, p) = delayed credResponse s1
      in then1 (\<lambda>cred s'. (afterInitialStep cred orgsResponse s', Inr ())) p s2)"

definition onInitialized ::
  "(error + credential option) \<Rightarrow> (error + organization list) \<Rightarrow> state \<Rightarrow> state" where
  "onInitialized credResponse orgsResponse s =
     fst (findExistingCredential credResponse orgsResponse s)"

definition createTokenSuccess ::
  "credential \<Rightarrow> (error + organization list) \<Rightarrow> state \<Rightarrow> state \<times> (error + token_result)" where
  "createTokenSuccess cred orgsResponse s =
     (let s1 = s\<lparr>credentialIdField := Some (credentialId cred)\<rparr>;
          s2 = pushStep GithubLoadingStep s1;
          s3 = fst (listOrganizations orgsResponse s2)
      in (s3, Inr \<lparr>success = True, detail = None\<rparr>))"

definition responseBody :: "error \<Rightarrow> string option" where
  "responseBody e = (case e of ApiError body \<Rightarrow> Some body | TypeError \<Rightarrow> None)"

definition createTokenFailure :: "error \<Rightarrow> state \<Rightarrow> state \<times> (error + token_result)" where
  "createTokenFailure e s = (s, Inr \<lparr>success = False, detail = responseBody e\<rparr>)"

definition createAccessToken ::
  "string \<Rightarrow> (error + credential) \<Rightarrow> (error + organization list) \<Rightarrow> state
     \<Rightarrow> state \<times> (error + token_result)" where
  "createAccessToken token credResponse orgsResponse s =
     (let s1 = callApi (CreateAccessToken token) s;
          (s2, p) = delayed credResponse s1
      in then2 (\<lambda>cred. createTokenSuccess cred orgsResponse) (\<lambda>e. createTokenFailure e) p s2)"

definition selectOrganization :: "organization \<Rightarrow> state \<Rightarrow> state" where
  "selectOrganization org s =
     pushStep GithubChooseDiscoverStep
       (setStatus STEP_CHOOSE_DISCOVER (s\<lparr>selectedOrganization := Some org\<rparr>))"

definition selectRepository :: "repository option \<Rightarrow> state \<Rightarrow> state" where
  "selectRepository repo s = s\<lparr>selectedRepository := repo\<rparr>"

subsection \<open>Repository pagination\<close>

definition loadPagedRepository :: "string \<Rightarrow> page_marker \<Rightarrow> state \<Rightarrow> state" where
  "loadPagedRepository organizationName pageNumber s =
     callApi (ListRepositories (credentialIdField s) organizationName pageNumber PAGE_SIZE) s"

text \<open>
  \<open>updateRepositories\<close> is the continuation of a page fetch. When it asks for a further
  page, its own continuation runs on the next response; \<open>future\<close> lists the responses
  the API will give from here on, in arrival order (a rejected fetch is \<open>Inl\<close>). With no
  response left the fetch stays pending; a rejected fetch has no handler and ends the
  chain.
\<close>

fun updateRepositories :: "string \<Rightarrow> page \<Rightarrow> (error + page) list \<Rightarrow> state \<Rightarrow> state" where
  "updateRepositories organizationName repoData future s =
     (let s1 = s\<lparr>repositories := repositories s @ items repoData\<rparr>;
          s2 = s1\<lparr>repositoryCache := (repositoryCache s1)(organizationName \<mapsto> repositories s1)\<rparr>
      in if nextPage repoData \<noteq> PageNull
         then (let s3 = loadPagedRepository organizationName (nextPage repoData) s2
               in case future of
                    [] \<Rightarrow> s3
                  | Inl e # rest \<Rightarrow> s3
                  | Inr repos2 # rest \<Rightarrow> updateRepositories organizationName repos2 rest s3)
         else if discoverSelection s2 = Some True
              then setStatus STEP_CONFIRM_DISCOVER (replaceCurrentStep GithubConfirmDiscoverStep s2)
              else setStatus STEP_CHOOSE_REPOSITORY (replaceCurrentStep GithubRepositoryStep s2))"

declare updateRepositories.simps [simp del]

text \<open>The synchronous body of \<^verbatim>\<open>_loadAllRepositories\<close>: clear, request page 1, set the status.\<close>

definition loadAllRepositories :: "organization \<Rightarrow> state \<Rightarrow> state" where
  "loadAllRepositories org s =
     setStatus PENDING_LOADING_REPOSITORIES
       (loadPagedRepository (org_name org) (PageNum FIRST_PAGE) (s\<lparr>repositories := []\<rparr>))"

text \<open>The promise chain \<^verbatim>\<open>_loadAllRepositories\<close> leaves behind, run on the responses.\<close>

definition loadAllRepositories_then :: "organization \<Rightarrow> (error + page) list \<Rightarrow> state \<Rightarrow> state" where
  "loadAllRepositories_then org future s =
     (case future of
        [] \<Rightarrow> s
      | r # rest \<Rightarrow>
          (let (s1, p) = delayed r s
           in fst (then1 (\<lambda>repos s'. (updateRepositories (org_name org) repos rest s', Inr ())) p s1)))"

text \<open>The whole pagination routine: the synchronous body, then its continuations.\<close>

definition paginate :: "organization \<Rightarrow> (error + page) list \<Rightarrow> state \<Rightarrow> state" where
  "paginate org future s = loadAllRepositories_then org future (loadAllRepositories org s)"

definition selectDiscover :: "bool \<Rightarrow> (error + page) list \<Rightarrow> state \<Rightarrow> state \<times> (error + unit)" where
  "selectDiscover discover future s =
     (let s1 = s\<lparr>discoverSelection := Some discover\<rparr>
      in case selectedOrganization s1 of
           None \<Rightarrow> (s1, Inl TypeError)
         | Some org \<Rightarrow>
             if autoDiscover org \<and> discover
             then (pushStep GithubAlreadyDiscoverStep (setStatus STEP_ALREADY_DISCOVER s1), Inr ())
             else (loadAllRepositories_then org future
                     (pushStep GithubLoadingStep (loadAllRepositories org s1)), Inr ()))"

text \<open>The fetches of repository pages among the API calls made.\<close>

fun is_fetch :: "api_call \<Rightarrow> bool" where
  "is_fetch (ListRepositories c n p k) = True"
| "is_fetch _ = False"

definition fetches :: "state \<Rightarrow> api_call list" where
  "fetches s = filter is_fetch (apiCalls s)"

subsection \<open>Saving the org folder and waiting for its indexing\<close>

definition getFullRepoNameList :: "state \<Rightarrow> error + string list" where
  "getFullRepoNameList s =
     (case selectedOrganization s of
        None \<Rightarrow> Inl TypeError
      | Some org \<Rightarrow>
          (case repositoryCache s (org_name org) of
             None \<Rightarrow> Inl TypeError
           | Some allRepos \<Rightarrow>
               (let existingPipelines = filter (\<lambda>repo. pipelineCreated repo) allRepos;
                    repoNames = map (\<lambda>repo. name repo) existingPipelines
                in case selectedRepository s of
                     None \<Rightarrow> Inl TypeError
                   | Some repo \<Rightarrow> Inr (repoNames @ [name repo]))))"

text \<open>
  \<open>sid\<close> and \<open>tid\<close> are what \<^verbatim>\<open>sseService.registerHandler\<close> and \<^verbatim>\<open>setTimeout\<close> return.
\<close>

definition saveOrgFolderSuccess :: "org_folder \<Rightarrow> handle \<Rightarrow> handle \<Rightarrow> state \<Rightarrow> state" where
  "saveOrgFolderSuccess orgFolder sid tid s =
     (let s1 = setStatus STEP_COMPLETE_SUCCESS s;
          s2 = s1\<lparr>savedOrgFolder := Some orgFolder\<rparr>;
          s3 = s2\<lparr>sseHandlers := insert sid (sseHandlers s2), sseSubscribeId := Some sid\<rparr>
      in s3\<lparr>timers := insert tid (timers s3), sseTimeoutId := Some tid\<rparr>)"

definition saveOrgFolderFailure :: "state \<Rightarrow> state" where
  "saveOrgFolderFailure s = setStatus STEP_COMPLETE_SAVING_ERROR s"

definition saveOrgFolder ::
  "string list \<Rightarrow> (error + org_folder) \<Rightarrow> handle \<Rightarrow> handle \<Rightarrow> state \<Rightarrow> state \<times> (error + unit)" where
  "saveOrgFolder repoNames response sid tid s =
     (let s1 = setStatus PENDING_CREATION_SAVING s;
          s2 = pushStep GithubCompleteStep s1;
          s3 = setPendingSteps [] s2
      in case selectedOrganization s3 of
           None \<Rightarrow> (s3, Inl TypeError)
         | Some org \<Rightarrow>
             (let shouldCreate = \<not> jenkinsOrganizationPipeline org;
                  s4 = (if shouldCreate
                        then callApi (CreateOrgFolder (credentialIdField s3) org repoNames) s3
                        else callApi (UpdateOrgFolder (credentialIdField s3) org repoNames) s3);
                  (s5, p) = then1 (\<lambda>v s'. (s', waitAtLeast 500 v)) response s4
              in (fst (then2 (\<lambda>r s'. (saveOrgFolderSuccess r sid tid s', Inr ()))
                             (\<lambda>e s'. (saveOrgFolderFailure s', Inr ())) p s5), Inr ())))"

definition saveAutoDiscover ::
  "(error + org_folder) \<Rightarrow> handle \<Rightarrow> handle \<Rightarrow> state \<Rightarrow> state \<times> (error + unit)" where
  "saveAutoDiscover response sid tid s = saveOrgFolder [] response sid tid s"

definition saveSingleRepo ::
  "(error + org_folder) \<Rightarrow> handle \<Rightarrow> handle \<Rightarrow> state \<Rightarrow> state \<times> (error + unit)" where
  "saveSingleRepo response sid tid s =
     (case getFullRepoNameList s of
        Inl e \<Rightarrow> (s, Inl e)
      | Inr repoNames \<Rightarrow> saveOrgFolder repoNames response sid tid s)"

definition onSseEvent :: "sse_event \<Rightarrow> state \<Rightarrow> error + state" where
  "onSseEvent event s =
     (case savedOrgFolder s of
        None \<Rightarrow> Inl TypeError
      | Some folder \<Rightarrow>
          if indexOf (blueocean_job_rest_url event) (self_href folder) = 0
          then if jenkins_event event = ''job_run_queue_task_complete''
               then if job_multibranch_indexing_result event = Some ''SUCCESS''
                    then Inr (cleanupListeners (setStatus STEP_COMPLETE_SUCCESS s))
                    else if job_multibranch_indexing_result event = Some ''FAILURE''
                         then Inr (cleanupListeners (setStatus STEP_COMPLETE_EVENT_ERROR s))
                         else Inr s
               else Inr s
          else Inr s)"

definition onSseTimeout :: "state \<Rightarrow> state" where
  "onSseTimeout s = cleanupListeners (setStatus STEP_COMPLETE_EVENT_TIMEOUT s)"

subsection \<open>The environment's side of the listeners\<close>

text \<open>
  \<^verbatim>\<open>sseService\<close> hands an event to the handlers it holds: with none of this manager's
  handlers registered the event does not reach it; otherwise \<open>onSseEvent\<close> runs, and an
  exception it throws leaves the manager as it was. A timer that fires leaves the timer
  queue and runs \<open>onSseTimeout\<close>; a cleared timer never fires.
\<close>

definition sse_deliver :: "sse_event \<Rightarrow> state \<Rightarrow> state" where
  "sse_deliver event s =
     (if sseHandlers s = {} then s
      else case onSseEvent event s of Inl e \<Rightarrow> s | Inr s' \<Rightarrow> s')"

definition timer_fires :: "handle \<Rightarrow> state \<Rightarrow> state" where
  "timer_fires t s =
     (if t \<in> timers s then onSseTimeout (s\<lparr>timers := timers s - {t}\<rparr>) else s)"

text \<open>The subscription, and the timer, as the environment holds them.\<close>

definition subscribed :: "state \<Rightarrow> bool" where
  "subscribed s = (sseHandlers s \<noteq> {})"

definition timer_pending :: "state \<Rightarrow> bool" where
  "timer_pending s = (timers s \<noteq> {})"

text \<open>An event the handler acts on: one for the saved folder that reports how indexing ended.\<close>

definition targets_saved :: "sse_event \<Rightarrow> state \<Rightarrow> bool" where
  "targets_saved event s =
     (case savedOrgFolder s of
        None \<Rightarrow> False
      | Some folder \<Rightarrow> indexOf (blueocean_job_rest_url event) (self_href folder) = 0)"

definition terminal_event :: "sse_event \<Rightarrow> state \<Rightarrow> bool" where
  "terminal_event event s =
     (targets_saved event s \<and> jenkins_event event = ''job_run_queue_task_complete''
      \<and> (job_multibranch_indexing_result event = Some ''SUCCESS''
         \<or> job_multibranch_indexing_result event = Some ''FAILURE''))"

subsection \<open>Calls and continuations, one at a time\<close>

text \<open>
  The functions above take what the API answers as a parameter and run a call together
  with its continuation. In the running program the continuation runs later, and other
  calls, events and timeouts may come in between. For runs of the manager every method
  is therefore split: \<open>f_call\<close> is the synchronous body of \<^verbatim>\<open>f\<close>, returning the state
  and the promises it leaves in flight; \<open>f_settled\<close> is the continuation, run on the
  answer.
\<close>

text \<open>
  A promise in flight, named by the continuation that waits for it: the credential
  lookup, the token creation, the organization listing, a page fetch for an organization
  name, a save.
\<close>

datatype pending = PCredential | PToken | POrgs | PPage string | PSave

definition listOrganizations_call :: "state \<Rightarrow> state \<times> pending list" where
  "listOrganizations_call s = (callApi (ListOrganizations (credentialIdField s)) s, [POrgs])"

definition listOrganizations_settled :: "(error + organization list) \<Rightarrow> state \<Rightarrow> state \<times> pending list" where
  "listOrganizations_settled orgsResponse s =
     (let (s1, p) = delayed orgsResponse s
      in (fst (then1 (\<lambda>orgs s'. (updateOrganizations orgs s', Inr ())) p s1), []))"

definition afterInitialStep_call :: "credential option \<Rightarrow> state \<Rightarrow> state \<times> pending list" where
  "afterInitialStep_call cred s =
     (case cred of
        Some c \<Rightarrow>
          if credentialId c \<noteq> []
          then listOrganizations_call (s\<lparr>credentialIdField := Some (credentialId c)\<rparr>)
          else (replaceCurrentStep GithubCredentialsStep s, [])
      | None \<Rightarrow> (replaceCurrentStep GithubCredentialsStep s, []))"

definition findExistingCredential_call :: "state \<Rightarrow> state \<times> pending list" where
  "findExistingCredential_call s = (callApi FindExistingCredential s, [PCredential])"

definition findExistingCredential_settled ::
  "(error + credential option) \<Rightarrow> state \<Rightarrow> state \<times> pending list" where
  "findExistingCredential_settled credResponse s =
     (let (s1, p) = delayed credResponse s
      in case p of Inl e \<Rightarrow> (s1, []) | Inr cred \<Rightarrow> afterInitialStep_call cred s1)"

definition createAccessToken_call :: "string \<Rightarrow> state \<Rightarrow> state \<times> pending list" where
  "createAccessToken_call token s = (callApi (CreateAccessToken token) s, [PToken])"

definition createTokenSuccess_call :: "credential \<Rightarrow> state \<Rightarrow> state \<times> pending list" where
  "createTokenSuccess_call cred s =
     (let s1 = s\<lparr>credentialIdField := Some (credentialId cred)\<rparr>;
          s2 = pushStep GithubLoadingStep s1
      in listOrganizations_call s2)"

definition createAccessToken_settled :: "(error + credential) \<Rightarrow> state \<Rightarrow> state \<times> pending list" where
  "createAccessToken_settled credResponse s =
     (let (s1, p) = delayed credResponse s
      in case p of
           Inl e \<Rightarrow> (fst (createTokenFailure e s1), [])
         | Inr cred \<Rightarrow> createTokenSuccess_call cred s1)"

definition selectDiscover_call :: "bool \<Rightarrow> state \<Rightarrow> state \<times> pending list" where
  "selectDiscover_call discover s =
     (let s1 = s\<lparr>discoverSelection := Some discover\<rparr>
      in case selectedOrganization s1 of
           None \<Rightarrow> (s1, [])
         | Some org \<Rightarrow>
             if autoDiscover org \<and> discover
             then (pushStep GithubAlreadyDiscoverStep (setStatus STEP_ALREADY_DISCOVER s1), [])
             else (pushStep GithubLoadingStep (loadAllRepositories org s1), [PPage (org_name org)]))"

definition page_settled :: "string \<Rightarrow> (error + page) \<Rightarrow> state \<Rightarrow> state \<times> pending list" where
  "page_settled organizationName response s =
     (case response of
        Inl e \<Rightarrow> (s, [])
      | Inr repoData \<Rightarrow>
          (updateRepositories organizationName repoData [] s,
           if nextPage repoData \<noteq> PageNull then [PPage organizationName] else []))"

definition saveOrgFolder_call :: "string list \<Rightarrow> state \<Rightarrow> state \<times> pending list" where
  "saveOrgFolder_call repoNames s =
     (let s1 = setStatus PENDING_CREATION_SAVING s;
          s2 = pushStep GithubCompleteStep s1;
          s3 = setPendingSteps [] s2
      in case selectedOrganization s3 of
           None \<Rightarrow> (s3, [])
         | Some org \<Rightarrow>
             (let shouldCreate = \<not> jenkinsOrganizationPipeline org
              in (if shouldCreate
                  then callApi (CreateOrgFolder (credentialIdField s3) org repoNames) s3
                  else callApi (UpdateOrgFolder (credentialIdField s3) org repoNames) s3,
                  [PSave])))"

definition saveOrgFolder_settled ::
  "(error + org_folder) \<Rightarrow> handle \<Rightarrow> handle \<Rightarrow> state \<Rightarrow> state \<times> pending list" where
  "saveOrgFolder_settled response sid tid s =
     (let (s1, p) = then1 (\<lambda>v s'. (s', waitAtLeast 500 v)) response s
      in (fst (then2 (\<lambda>r s'. (saveOrgFolderSuccess r sid tid s', Inr ()))
                     (\<lambda>e s'. (saveOrgFolderFailure s', Inr ())) p s1), []))"

definition saveAutoDiscover_call :: "state \<Rightarrow> state \<times> pending list" where
  "saveAutoDiscover_call s = saveOrgFolder_call [] s"

definition saveSingleRepo_call :: "state \<Rightarrow> state \<times> pending list" where
  "saveSingleRepo_call s =
     (case getFullRepoNameList s of
        Inl e \<Rightarrow> (s, [])
      | Inr repoNames \<Rightarrow> saveOrgFolder_call repoNames s)"

subsection \<open>Runs of the flow manager\<close>

text \<open>
  The manager together with the promises in flight. An action is a call of a public
  method, a promise in flight settling with an answer (for a save, with the handles that
  \<^verbatim>\<open>sseService.registerHandler\<close> and \<^verbatim>\<open>setTimeout\<close> return when the continuation
  arms the listeners), an event from \<^verbatim>\<open>sseService\<close>, or a timer firing. Promises settle
  in any order; settling a promise that is not in flight is no action.
\<close>

record world =
  mgr :: state
  pending :: "pending list"

definition initial_world :: world where
  "initial_world = \<lparr>mgr = initial_state, pending = []\<rparr>"

datatype settle =
    CredentialFound "error + credential option"
  | TokenCreated "error + credential"
  | OrgsListed "error + organization list"
  | PageLoaded string "error + page"
  | FolderSaved "error + org_folder" handle handle

fun awaited :: "settle \<Rightarrow> pending" where
  "awaited (CredentialFound credResponse) = PCredential"
| "awaited (TokenCreated credResponse) = PToken"
| "awaited (OrgsListed orgsResponse) = POrgs"
| "awaited (PageLoaded organizationName response) = PPage organizationName"
| "awaited (FolderSaved response sid tid) = PSave"

fun settled :: "settle \<Rightarrow> state \<Rightarrow> state \<times> pending list" where
  "settled (CredentialFound credResponse) s = findExistingCredential_settled credResponse s"
| "settled (TokenCreated credResponse) s = createAccessToken_settled credResponse s"
| "settled (OrgsListed orgsResponse) s = listOrganizations_settled orgsResponse s"
| "settled (PageLoaded organizationName response) s = page_settled organizationName response s"
| "settled (FolderSaved response sid tid) s = saveOrgFolder_settled response sid tid s"

datatype action =
    OnInitialized
  | CreateToken string
  | ListOrgs
  | SelectOrganization organization
  | SelectDiscover bool
  | SelectRepository "repository option"
  | SaveAutoDiscover
  | SaveSingleRepo
  | Destroy
  | Settle settle
  | SseEvent sse_event
  | TimerFires handle

definition called :: "state \<times> pending list \<Rightarrow> world \<Rightarrow> world" where
  "called r w = \<lparr>mgr = fst r, pending = pending w @ snd r\<rparr>"

fun perform :: "action \<Rightarrow> world \<Rightarrow> world" where
  "perform OnInitialized w = called (findExistingCredential_call (mgr w)) w"
| "perform (CreateToken token) w = called (createAccessToken_call token (mgr w)) w"
| "perform ListOrgs w = called (listOrganizations_call (mgr w)) w"
| "perform (SelectOrganization org) w = called (selectOrganization org (mgr w), []) w"
| "perform (SelectDiscover discover) w = called (selectDiscover_call discover (mgr w)) w"
| "perform (SelectRepository r) w = called (selectRepository r (mgr w), []) w"
| "perform SaveAutoDiscover w = called (saveAutoDiscover_call (mgr w)) w"
| "perform SaveSingleRepo w = called (saveSingleRepo_call (mgr w)) w"
| "perform Destroy w = called (destroy (mgr w), []) w"
| "perform (Settle x) w =
     (if awaited x \<in> set (pending w)
      then called (settled x (mgr w)) (w\<lparr>pending := remove1 (awaited x) (pending w)\<rparr>)
      else w)"
| "perform (SseEvent event) w = called (sse_deliver event (mgr w), []) w"
| "perform (TimerFires t) w = called (timer_fires t (mgr w), []) w"

fun run :: "action list \<Rightarrow> world \<Rightarrow> world" where
  "run [] w = w"
| "run (a # acts) w = run acts (perform a w)"

text \<open>The environment gives out truthy handles.\<close>

fun truthy_handles :: "action \<Rightarrow> bool" where
  "truthy_handles (Settle (FolderSaved response sid tid)) = (sid \<noteq> 0 \<and> tid \<noteq> 0)"
| "truthy_handles _ = True"

text \<open>
  An action that arms the listeners: a save in flight settles successfully. A run arms
  when disarmed if every such action finds no handler registered and no timer pending.
\<close>

fun arms :: "action \<Rightarrow> world \<Rightarrow> bool" where
  "arms (Settle (FolderSaved (Inr orgFolder) sid tid)) w = (PSave \<in> set (pending w))"
| "arms _ w = False"

fun arms_when_disarmed :: "action list \<Rightarrow> world \<Rightarrow> bool" where
  "arms_when_disarmed [] w = True"
| "arms_when_disarmed (a # acts) w =
     ((arms a w \<longrightarrow> \<not> subscribed (mgr w) \<and> \<not> timer_pending (mgr w))
      \<and> arms_when_disarmed acts (perform a w))"

text \<open>
  Actions that may come between arming and the timeout: anything but a further arming,
  a timer firing, or the manager being destroyed.
\<close>

fun quiet :: "action \<Rightarrow> bool" where
  "quiet Destroy = False"
| "quiet (TimerFires t) = False"
| "quiet (Settle (FolderSaved (Inr orgFolder) sid tid)) = False"
| "quiet _ = True"

section \<open>Notions used in the properties\<close>

text \<open>The status the last page leaves (the branch on \<^verbatim>\<open>_discoverSelection\<close>).\<close>

definition final_status :: "state \<Rightarrow> status" where
  "final_status s =
     (if discoverSelection s = Some True then STEP_CONFIRM_DISCOVER else STEP_CHOOSE_REPOSITORY)"

definition page_request :: "state \<Rightarrow> string \<Rightarrow> page_marker \<Rightarrow> api_call" where
  "page_request s n marker = ListRepositories (credentialIdField s) n marker PAGE_SIZE"

text \<open>The state in which a page that has a next page leaves the manager.\<close>

definition after_page :: "string \<Rightarrow> page \<Rightarrow> state \<Rightarrow> state" where
  "after_page n repoData s =
     loadPagedRepository n (nextPage repoData)
       (s\<lparr>repositories := repositories s @ items repoData,
          repositoryCache := (repositoryCache s)(n \<mapsto> repositories s @ items repoData)\<rparr>)"

text \<open>Pages as a complete pagination delivers them: the last one, and only it, has no next page.\<close>

definition complete_pages :: "page list \<Rightarrow> bool" where
  "complete_pages pages =
     (pages \<noteq> [] \<and> (\<forall>q \<in> set (butlast pages). nextPage q \<noteq> PageNull)
      \<and> nextPage (last pages) = PageNull)"

text \<open>
  What the manager and the environment hold of the listeners: the two recorded handles,
  the registered handlers, the pending timers, and the saved folder that events are
  matched against.
\<close>

definition listeners ::
  "state \<Rightarrow> handle option \<times> handle option \<times> handle set \<times> handle set \<times> org_folder option" where
  "listeners s = (sseSubscribeId s, sseTimeoutId s, sseHandlers s, timers s, savedOrgFolder s)"

text \<open>The recorded handles are both set or both \<open>null\<close>, and a set handle is truthy.\<close>

definition pair_ok :: "state \<Rightarrow> bool" where
  "pair_ok s =
     ((sseSubscribeId s = None \<longleftrightarrow> sseTimeoutId s = None)
      \<and> sseSubscribeId s \<noteq> Some 0 \<and> sseTimeoutId s \<noteq> Some 0)"

text \<open>The environment holds exactly the recorded handler and timer.\<close>

definition tracked :: "state \<Rightarrow> bool" where
  "tracked s =
     (sseHandlers s = set_option (sseSubscribeId s) \<and> timers s = set_option (sseTimeoutId s))"

text \<open>The recorded handler and timer are held by the environment.\<close>

definition registered :: "state \<Rightarrow> bool" where
  "registered s =
     (set_option (sseSubscribeId s) \<subseteq> sseHandlers s \<and> set_option (sseTimeoutId s) \<subseteq> timers s)"

text \<open>Data for the concrete instances below.\<close>

definition acme :: organization where
  "acme = \<lparr>org_name = ''acme'', autoDiscover = False, jenkinsOrganizationPipeline = False\<rparr>"

definition acme_folder :: org_folder where
  "acme_folder = \<lparr>self_href = ''/orgs/acme/''\<rparr>"

definition repo :: "string \<Rightarrow> bool \<Rightarrow> repository" where
  "repo n created = \<lparr>name = n, pipelineCreated = created\<rparr>"

definition armed_acme :: state where
  "armed_acme = saveOrgFolderSuccess acme_folder 7 9 initial_state"

section \<open>String matching\<close>

lemma indexOf_from_ge: "indexOf_from str pat k = - 1 \<or> int k \<le> indexOf_from str pat k"
  by (induction str arbitrary: k) (auto, force)

lemma indexOf_from_hit: "indexOf_from str pat k = int k \<longleftrightarrow> take (length pat) str = pat"
proof (cases str)
  case Nil
  then show ?thesis by auto
next
  case (Cons c cs)
  have "indexOf_from cs pat (Suc k) \<noteq> int k"
    using indexOf_from_ge [of cs pat "Suc k"] by auto
  with Cons show ?thesis by auto
qed

lemma indexOf_zero_prefix: "indexOf str pat = 0 \<longleftrightarrow> prefix pat str"
proof -
  have "indexOf str pat = 0 \<longleftrightarrow> take (length pat) str = pat"
    using indexOf_from_hit [of str pat 0] by (simp add: indexOf_def)
  also have "\<dots> \<longleftrightarrow> prefix pat str"
    by (metis take_is_prefix prefix_def append_eq_conv_conj)
  finally show ?thesis .
qed

section \<open>Selectable repositories\<close>

lemma count_list_filter:
  "count_list (filter P xs) x = (if P x then count_list xs x else 0)"
  by (induction xs) auto

text \<open>
  Claim C9. Whatever the repository collection holds, \<open>selectableRepositories\<close> has no
  repository whose \<open>pipelineCreated\<close> is true and has every other repository of the
  collection, as often as the collection has it and in the collection's order.
\<close>

theorem selectable_excludes_created:
  "subseq (selectableRepositories s) (repositories s)
   \<and> (\<forall>r. r \<in> set (selectableRepositories s)
          \<longleftrightarrow> r \<in> set (repositories s) \<and> \<not> pipelineCreated r)
   \<and> (\<forall>r. \<not> pipelineCreated r
          \<longrightarrow> count_list (selectableRepositories s) r = count_list (repositories s) r)
   \<and> selectableRepositories s = filter (\<lambda>r. \<not> pipelineCreated r) (repositories s)"
  by (simp add: selectableRepositories_def selectableRepositories_of_def count_list_filter)

theorem selectable_excludes_created_witness:
  "\<not> pipelineCreated (repo ''B'' False)
   \<and> count_list (selectableRepositories
        (initial_state\<lparr>repositories := [repo ''A'' True, repo ''B'' False, repo ''C'' True, repo ''D'' False]\<rparr>))
        (repo ''B'' False) = 1
   \<and> selectableRepositories
        (initial_state\<lparr>repositories := [repo ''A'' True, repo ''B'' False, repo ''C'' True, repo ''D'' False]\<rparr>)
      = [repo ''B'' False, repo ''D'' False]"
  using selectable_excludes_created
    [of "initial_state\<lparr>repositories := [repo ''A'' True, repo ''B'' False, repo ''C'' True, repo ''D'' False]\<rparr>"]
  by (simp add: repo_def)

section \<open>Creating an access token\<close>

text \<open>
  Claim C7. When the create-access-token call is rejected with an error,
  \<open>createAccessToken\<close> resolves to \<open>{success: false, detail: <the error's response body>}\<close>;
  the manager is as before apart from the API call it made, so the step stack and the
  pending steps are unchanged.
\<close>

theorem token_failure_keeps_step:
  "createAccessToken token (Inl e) orgsResponse s
     = (s\<lparr>apiCalls := apiCalls s @ [CreateAccessToken token]\<rparr>,
        Inr \<lparr>success = False, detail = responseBody e\<rparr>)
   \<and> responseBody (ApiError body) = Some body
   \<and> steps (fst (createAccessToken token (Inl e) orgsResponse s)) = steps s
   \<and> pendingSteps (fst (createAccessToken token (Inl e) orgsResponse s)) = pendingSteps s
   \<and> status (fst (createAccessToken token (Inl e) orgsResponse s)) = status s"
  by (simp add: createAccessToken_def callApi_def delayed_def then1_def then2_def
      createTokenFailure_def responseBody_def)

section \<open>Repository pagination\<close>

lemma updateRepositories_last:
  assumes "nextPage repoData = PageNull"
  shows "repositories (updateRepositories n repoData future s) = repositories s @ items repoData"
    and "repositoryCache (updateRepositories n repoData future s) n
           = Some (repositories s @ items repoData)"
    and "fetches (updateRepositories n repoData future s) = fetches s"
    and "status (updateRepositories n repoData future s) = Some (final_status s)"
  using assms
  by (subst updateRepositories.simps,
      simp add: setStatus_def replaceCurrentStep_def fetches_def final_status_def Let_def)+

lemma after_page_fields:
  "repositories (after_page n repoData s) = repositories s @ items repoData"
  "repositoryCache (after_page n repoData s) n = Some (repositories s @ items repoData)"
  "fetches (after_page n repoData s) = fetches s @ [page_request s n (nextPage repoData)]"
  "status (after_page n repoData s) = status s"
  "credentialIdField (after_page n repoData s) = credentialIdField s"
  "discoverSelection (after_page n repoData s) = discoverSelection s"
  by (simp_all add: after_page_def loadPagedRepository_def callApi_def fetches_def page_request_def)

lemma updateRepositories_more:
  assumes "nextPage repoData \<noteq> PageNull"
  shows "updateRepositories n repoData [] s = after_page n repoData s"
    and "updateRepositories n repoData (Inl e # rest) s = after_page n repoData s"
    and "updateRepositories n repoData (Inr repos2 # rest) s
           = updateRepositories n repos2 rest (after_page n repoData s)"
  using assms
  by (subst updateRepositories.simps, simp add: after_page_def Let_def)+

lemma fetches_grow: "prefix (fetches s) (fetches (updateRepositories n repoData future s))"
proof (induction future arbitrary: repoData s)
  case Nil
  then show ?case
    by (cases "nextPage repoData = PageNull")
       (simp_all add: updateRepositories_last updateRepositories_more after_page_fields)
next
  case (Cons r rest)
  show ?case
  proof (cases "nextPage repoData = PageNull")
    case True
    then show ?thesis by (simp add: updateRepositories_last)
  next
    case False
    show ?thesis
    proof (cases r)
      case (Inl e)
      with False show ?thesis by (simp add: updateRepositories_more after_page_fields)
    next
      case (Inr repos2)
      have "prefix (fetches (after_page n repoData s))
              (fetches (updateRepositories n repos2 rest (after_page n repoData s)))"
        by (rule Cons.IH)
      with False Inr show ?thesis
        by (simp add: updateRepositories_more after_page_fields) (meson append_prefixD)
    qed
  qed
qed

lemma fetches_grow_next:
  assumes "nextPage repoData \<noteq> PageNull"
  shows "prefix (fetches s @ [page_request s n (nextPage repoData)])
           (fetches (updateRepositories n repoData future s))"
proof (cases future)
  case Nil
  with assms show ?thesis by (simp add: updateRepositories_more after_page_fields)
next
  case (Cons r rest)
  show ?thesis
  proof (cases r)
    case (Inl e)
    with assms Cons show ?thesis by (simp add: updateRepositories_more after_page_fields)
  next
    case (Inr repos2)
    with assms Cons show ?thesis
      using fetches_grow [of "after_page n repoData s" n repos2 rest]
      by (simp add: updateRepositories_more after_page_fields)
  qed
qed

lemma updateRepositories_chain:
  assumes "complete_pages (p # ps)"
  shows "repositories (updateRepositories n p (map Inr ps @ later) s)
           = repositories s @ concat (map items (p # ps))
       \<and> repositoryCache (updateRepositories n p (map Inr ps @ later) s) n
           = Some (repositories s @ concat (map items (p # ps)))
       \<and> fetches (updateRepositories n p (map Inr ps @ later) s)
           = fetches s @ map (\<lambda>q. page_request s n (nextPage q)) (butlast (p # ps))
       \<and> status (updateRepositories n p (map Inr ps @ later) s) = Some (final_status s)"
  using assms
proof (induction ps arbitrary: p s)
  case Nil
  then show ?case by (simp add: complete_pages_def updateRepositories_last)
next
  case (Cons q ps)
  from Cons.prems have more: "nextPage p \<noteq> PageNull" and rest: "complete_pages (q # ps)"
    by (auto simp: complete_pages_def)
  from Cons.IH [OF rest, of "after_page n p s"] more show ?case
    by (simp add: updateRepositories_more after_page_fields page_request_def final_status_def)
qed

lemma paginate_unfold:
  "paginate org (Inr p # future) s
     = updateRepositories (org_name org) p future (loadAllRepositories org s)"
  by (simp add: paginate_def loadAllRepositories_then_def delayed_def then1_def waitAtLeast_def)

lemma loadAllRepositories_fields:
  "repositories (loadAllRepositories org s) = []"
  "fetches (loadAllRepositories org s)
     = fetches s @ [page_request s (org_name org) (PageNum FIRST_PAGE)]"
  "status (loadAllRepositories org s) = Some PENDING_LOADING_REPOSITORIES"
  "credentialIdField (loadAllRepositories org s) = credentialIdField s"
  "discoverSelection (loadAllRepositories org s) = discoverSelection s"
  by (simp_all add: loadAllRepositories_def setStatus_def loadPagedRepository_def callApi_def
      fetches_def page_request_def)

lemma initial_state_fields:
  "fetches initial_state = []"
  "credentialIdField initial_state = None"
  "discoverSelection initial_state = None"
  "repositories initial_state = []"
  by (simp_all add: fetches_def initial_state_def)

text \<open>
  Claim C1. For every sequence of page responses the pagination routine consumes (each
  page but the last announces a next page, the last has \<open>nextPage = null\<close>), after the
  last page the repositories collection is the concatenation of the pages' items in
  arrival order, and the cache entry of the organization's name is that same list.
  Responses that would come after the last page are never consumed.
\<close>

theorem pagination_concatenates_pages:
  assumes "pages \<noteq> []"
    and "\<forall>q \<in> set (butlast pages). nextPage q \<noteq> PageNull"
    and "nextPage (last pages) = PageNull"
  shows "repositories (paginate org (map Inr pages @ later) s) = concat (map items pages)
       \<and> repositoryCache (paginate org (map Inr pages @ later) s) (org_name org)
           = Some (concat (map items pages))
       \<and> status (paginate org (map Inr pages @ later) s) = Some (final_status s)"
proof -
  from assms(1) obtain p ps where pages: "pages = p # ps" by (cases pages) auto
  with assms have "complete_pages (p # ps)" by (simp add: complete_pages_def)
  from updateRepositories_chain [OF this, of "org_name org" later "loadAllRepositories org s"]
  show ?thesis
    by (simp add: pages paginate_unfold loadAllRepositories_fields final_status_def)
qed

theorem pagination_concatenates_pages_witness:
  "repositories (paginate acme
      [Inr \<lparr>items = [repo ''A'' True], nextPage = PageNum 2\<rparr>,
       Inr \<lparr>items = [repo ''B'' False, repo ''C'' True], nextPage = PageNull\<rparr>,
       Inr \<lparr>items = [repo ''Z'' False], nextPage = PageNull\<rparr>]
      (initial_state\<lparr>repositories := [repo ''old'' False]\<rparr>))
     = [repo ''A'' True, repo ''B'' False, repo ''C'' True]
   \<and> repositoryCache (paginate acme
      [Inr \<lparr>items = [repo ''A'' True], nextPage = PageNum 2\<rparr>,
       Inr \<lparr>items = [repo ''B'' False, repo ''C'' True], nextPage = PageNull\<rparr>,
       Inr \<lparr>items = [repo ''Z'' False], nextPage = PageNull\<rparr>]
      (initial_state\<lparr>repositories := [repo ''old'' False]\<rparr>)) ''acme''
     = Some [repo ''A'' True, repo ''B'' False, repo ''C'' True]"
  using pagination_concatenates_pages
    [of "[\<lparr>items = [repo ''A'' True], nextPage = PageNum 2\<rparr>,
          \<lparr>items = [repo ''B'' False, repo ''C'' True], nextPage = PageNull\<rparr>]"
        acme "[Inr \<lparr>items = [repo ''Z'' False], nextPage = PageNull\<rparr>]"
        "initial_state\<lparr>repositories := [repo ''old'' False]\<rparr>"]
  by (simp add: acme_def)

text \<open>
  Claim C2, as stated, fails for an absent marker: the test is \<^verbatim>\<open>nextPage !== null\<close>, and
  \<^verbatim>\<open>undefined !== null\<close> holds, so a response without the \<open>nextPage\<close> property makes
  the routine fetch again (page \<^verbatim>\<open>undefined\<close>) and stay in the loading status.
\<close>

theorem absent_marker_fetches_again:
  "fetches (paginate acme [Inr \<lparr>items = [], nextPage = PageAbsent\<rparr>] initial_state)
     = [ListRepositories None ''acme'' (PageNum 1) 100,
        ListRepositories None ''acme'' PageAbsent 100]
   \<and> status (paginate acme [Inr \<lparr>items = [], nextPage = PageAbsent\<rparr>] initial_state)
     = Some PENDING_LOADING_REPOSITORIES"
  by (simp add: paginate_unfold updateRepositories_more after_page_fields
      loadAllRepositories_fields page_request_def acme_def initial_state_fields
      FIRST_PAGE_def PAGE_SIZE_def)

text \<open>
  Claim C2, amended. The continuation of a page fetch requests a further page if and only
  if the response's \<open>nextPage\<close> is not \<open>null\<close>: with \<open>null\<close> it makes no fetch, whatever
  responses might follow, and moves on to the next step; with any other marker its next
  API call is the fetch of that page. In particular a first response with
  \<open>nextPage = null\<close> gives exactly one fetch, of page 1, and a complete sequence of pages
  gives one fetch per page.
\<close>

theorem pagination_stops_on_null:
  "fetches (updateRepositories n repoData [] s)
     = fetches s @ (if nextPage repoData \<noteq> PageNull
                    then [ListRepositories (credentialIdField s) n (nextPage repoData) PAGE_SIZE]
                    else [])
   \<and> (nextPage repoData = PageNull \<longrightarrow>
      fetches (updateRepositories n repoData future s) = fetches s
      \<and> status (updateRepositories n repoData future s) = Some (final_status s))
   \<and> (nextPage repoData \<noteq> PageNull \<longrightarrow>
      prefix (fetches s @ [ListRepositories (credentialIdField s) n (nextPage repoData) PAGE_SIZE])
        (fetches (updateRepositories n repoData future s)))
   \<and> (nextPage repoData = PageNull \<longrightarrow>
      fetches (paginate org (Inr repoData # future) s)
        = fetches s @ [ListRepositories (credentialIdField s) (org_name org) (PageNum FIRST_PAGE) PAGE_SIZE]
      \<and> status (paginate org (Inr repoData # future) s) = Some (final_status s))
   \<and> (complete_pages pages \<longrightarrow>
      length (fetches (paginate org (map Inr pages @ future) s)) = length (fetches s) + length pages)"
proof -
  have z: "fetches (updateRepositories n repoData [] s)
     = fetches s @ (if nextPage repoData \<noteq> PageNull
                    then [ListRepositories (credentialIdField s) n (nextPage repoData) PAGE_SIZE]
                    else [])"
    by (cases "nextPage repoData = PageNull")
       (simp_all add: updateRepositories_last updateRepositories_more after_page_fields
          page_request_def)
  have a: "nextPage repoData = PageNull \<Longrightarrow>
      fetches (updateRepositories n repoData future s) = fetches s
      \<and> status (updateRepositories n repoData future s) = Some (final_status s)"
    by (simp add: updateRepositories_last)
  have b: "nextPage repoData \<noteq> PageNull \<Longrightarrow>
      prefix (fetches s @ [ListRepositories (credentialIdField s) n (nextPage repoData) PAGE_SIZE])
        (fetches (updateRepositories n repoData future s))"
    using fetches_grow_next [of repoData s n future] by (simp add: page_request_def)
  have c: "nextPage repoData = PageNull \<Longrightarrow>
      fetches (paginate org (Inr repoData # future) s)
        = fetches s @ [ListRepositories (credentialIdField s) (org_name org) (PageNum FIRST_PAGE) PAGE_SIZE]
      \<and> status (paginate org (Inr repoData # future) s) = Some (final_status s)"
    by (simp add: paginate_unfold updateRepositories_last loadAllRepositories_fields
        page_request_def final_status_def)
  have d: "complete_pages pages \<Longrightarrow>
      length (fetches (paginate org (map Inr pages @ future) s)) = length (fetches s) + length pages"
  proof -
    assume cp: "complete_pages pages"
    then obtain p ps where pages: "pages = p # ps"
      by (cases pages) (auto simp: complete_pages_def)
    from cp updateRepositories_chain [of p ps "org_name org" future "loadAllRepositories org s"]
    show ?thesis
      by (simp add: pages paginate_unfold loadAllRepositories_fields)
  qed
  from z a b c d show ?thesis by blast
qed

theorem pagination_stops_on_null_witness:
  "fetches (paginate acme
      [Inr \<lparr>items = [repo ''A'' True], nextPage = PageNull\<rparr>,
       Inr \<lparr>items = [repo ''Z'' False], nextPage = PageNull\<rparr>] initial_state)
     = [ListRepositories None ''acme'' (PageNum 1) 100]
   \<and> status (paginate acme
      [Inr \<lparr>items = [repo ''A'' True], nextPage = PageNull\<rparr>,
       Inr \<lparr>items = [repo ''Z'' False], nextPage = PageNull\<rparr>] initial_state)
     = Some STEP_CHOOSE_REPOSITORY
   \<and> prefix [ListRepositories None ''acme'' (PageNum 2) 100]
       (fetches (updateRepositories ''acme'' \<lparr>items = [repo ''A'' True], nextPage = PageNum 2\<rparr>
          [Inr \<lparr>items = [], nextPage = PageNum 3\<rparr>] initial_state))
   \<and> length (fetches (paginate acme
      [Inr \<lparr>items = [repo ''A'' True], nextPage = PageNull\<rparr>,
       Inr \<lparr>items = [repo ''Z'' False], nextPage = PageNull\<rparr>] initial_state)) = 1"
  using pagination_stops_on_null
    [of "''acme''" "\<lparr>items = [repo ''A'' True], nextPage = PageNull\<rparr>" initial_state
        "[Inr \<lparr>items = [repo ''Z'' False], nextPage = PageNull\<rparr>]" acme
        "[\<lparr>items = [repo ''A'' True], nextPage = PageNull\<rparr>]"]
    pagination_stops_on_null
    [of "''acme''" "\<lparr>items = [repo ''A'' True], nextPage = PageNum 2\<rparr>" initial_state
        "[Inr \<lparr>items = [], nextPage = PageNum 3\<rparr>]" acme "[]"]
  by (simp add: acme_def initial_state_fields final_status_def complete_pages_def
      FIRST_PAGE_def PAGE_SIZE_def)

section \<open>Saving a single repository\<close>

text \<open>
  Claim C6. The single-repository save passes to the API the names of the cached
  repositories of the selected organization that are flagged pipeline-created, in their
  cached order, followed by the selected repository's name. With \<open>X\<close> selected and
  \<open>A\<close>, \<open>B\<close> cached as pipeline-created the list is \<open>[A, B, X]\<close>.
\<close>

theorem single_repo_name_list:
  assumes "selectedOrganization s = Some org"
    and "repositoryCache s (org_name org) = Some allRepos"
    and "selectedRepository s = Some selected"
  shows "getFullRepoNameList s
           = Inr (map name (filter pipelineCreated allRepos) @ [name selected])
    \<and> apiCalls (fst (saveSingleRepo response sid tid s))
        = apiCalls s @
          [(if jenkinsOrganizationPipeline org then UpdateOrgFolder else CreateOrgFolder)
             (credentialIdField s) org
             (map name (filter pipelineCreated allRepos) @ [name selected])]"
proof -
  from assms have names: "getFullRepoNameList s
           = Inr (map name (filter pipelineCreated allRepos) @ [name selected])"
    by (simp add: getFullRepoNameList_def)
  have "apiCalls (fst (saveOrgFolder names response sid tid s))
        = apiCalls s @
          [(if jenkinsOrganizationPipeline org then UpdateOrgFolder else CreateOrgFolder)
             (credentialIdField s) org names]" for names
    using assms(1)
    by (cases response)
       (simp_all add: saveOrgFolder_def setStatus_def pushStep_def setPendingSteps_def
          callApi_def then1_def then2_def waitAtLeast_def saveOrgFolderSuccess_def
          saveOrgFolderFailure_def Let_def)
  with names show ?thesis by (simp add: saveSingleRepo_def)
qed

theorem single_repo_name_list_witness:
  "getFullRepoNameList
     (initial_state\<lparr>selectedOrganization := Some acme,
        repositoryCache := [''acme'' \<mapsto> [repo ''A'' True, repo ''N'' False, repo ''B'' True]],
        selectedRepository := Some (repo ''X'' False)\<rparr>)
     = Inr [''A'', ''B'', ''X'']
   \<and> apiCalls (fst (saveSingleRepo (Inr acme_folder) 7 9
       (initial_state\<lparr>selectedOrganization := Some acme,
          repositoryCache := [''acme'' \<mapsto> [repo ''A'' True, repo ''N'' False, repo ''B'' True]],
          selectedRepository := Some (repo ''X'' False)\<rparr>)))
     = [CreateOrgFolder None acme [''A'', ''B'', ''X'']]"
  using single_repo_name_list
    [of "initial_state\<lparr>selectedOrganization := Some acme,
          repositoryCache := [''acme'' \<mapsto> [repo ''A'' True, repo ''N'' False, repo ''B'' True]],
          selectedRepository := Some (repo ''X'' False)\<rparr>"
        acme "[repo ''A'' True, repo ''N'' False, repo ''B'' True]" "repo ''X'' False"
        "Inr acme_folder" 7 9]
  by (simp add: acme_def repo_def initial_state_def)

section \<open>Rejected API calls\<close>

text \<open>
  Claim C8 does not hold of the code: only the token creation and the save pass a
  rejection handler to \<^verbatim>\<open>then\<close>. When the credential lookup, the organization listing
  or a page fetch is rejected, no handler of the manager runs: the promise the method
  returns is rejected with the same error, and the manager stays as it was (on the
  loading step, in the loading status).
\<close>

theorem rejections_without_handler:
  "findExistingCredential (Inl (ApiError ''HTTP 500'')) (Inr []) initial_state
     = (initial_state\<lparr>apiCalls := [FindExistingCredential]\<rparr>, Inl (ApiError ''HTTP 500''))
   \<and> listOrganizations (Inl (ApiError ''HTTP 500'')) initial_state
     = (initial_state\<lparr>apiCalls := [ListOrganizations None]\<rparr>, Inl (ApiError ''HTTP 500''))
   \<and> paginate acme [Inl (ApiError ''HTTP 500'')] initial_state = loadAllRepositories acme initial_state
   \<and> status (paginate acme [Inl (ApiError ''HTTP 500'')] initial_state)
     = Some PENDING_LOADING_REPOSITORIES"
  by (simp add: findExistingCredential_def listOrganizations_def callApi_def delayed_def
      then1_def initial_state_def paginate_def loadAllRepositories_then_def
      loadAllRepositories_fields)

section \<open>Events of the saved folder\<close>

lemma cleanupListeners_fields:
  "status (cleanupListeners s) = status s"
  "savedOrgFolder (cleanupListeners s) = savedOrgFolder s"
  by (auto simp: cleanupListeners_def Let_def split: option.splits)

lemma onSseEvent_cases:
  assumes "savedOrgFolder s = Some folder"
  shows "onSseEvent event s =
    Inr (if prefix (self_href folder) (blueocean_job_rest_url event)
            \<and> jenkins_event event = ''job_run_queue_task_complete''
            \<and> job_multibranch_indexing_result event = Some ''SUCCESS''
         then cleanupListeners (setStatus STEP_COMPLETE_SUCCESS s)
         else if prefix (self_href folder) (blueocean_job_rest_url event)
            \<and> jenkins_event event = ''job_run_queue_task_complete''
            \<and> job_multibranch_indexing_result event = Some ''FAILURE''
         then cleanupListeners (setStatus STEP_COMPLETE_EVENT_ERROR s)
         else s)"
  using assms by (simp add: onSseEvent_def indexOf_zero_prefix)

lemma non_terminal_ignored:
  assumes "\<not> terminal_event event s"
  shows "sse_deliver event s = s"
proof (cases "savedOrgFolder s")
  case None
  then show ?thesis by (simp add: sse_deliver_def onSseEvent_def)
next
  case (Some folder)
  with assms show ?thesis
    by (auto simp: sse_deliver_def onSseEvent_def terminal_event_def targets_saved_def)
qed

text \<open>
  Running the handler a second time on the same event changes nothing, so it does not
  matter under how many handles \<^verbatim>\<open>sseService\<close> holds the manager's handler when it
  delivers an event.
\<close>

lemma cleanupListeners_idem: "cleanupListeners (cleanupListeners s) = cleanupListeners s"
  by (auto simp: cleanupListeners_def Let_def split: option.splits)

lemma onSseEvent_again:
  assumes "onSseEvent event s = Inr s'"
  shows "onSseEvent event s' = Inr s'"
proof -
  have again: "cleanupListeners (setStatus x (cleanupListeners (setStatus x s)))
                 = cleanupListeners (setStatus x s)" for x
    by (auto simp: cleanupListeners_def setStatus_def Let_def split: option.splits)
  have folder: "savedOrgFolder (setStatus x s) = savedOrgFolder s" for x
    by (simp add: setStatus_def)
  from assms show ?thesis
    by (auto simp: onSseEvent_def cleanupListeners_fields folder again
        split: option.splits if_splits)
qed

lemma armed_acme_fields:
  "savedOrgFolder armed_acme = Some acme_folder"
  "status armed_acme = Some STEP_COMPLETE_SUCCESS"
  "sseSubscribeId armed_acme = Some 7"
  "sseTimeoutId armed_acme = Some 9"
  "sseHandlers armed_acme = {7}"
  "timers armed_acme = {9}"
  by (simp_all add: armed_acme_def saveOrgFolderSuccess_def setStatus_def initial_state_def)

text \<open>
  Claim C3. An event that is not a matching terminal event, because its
  \<open>blueocean_job_rest_url\<close> does not match the saved folder, or because it matches and is
  a \<open>job_run_queue_task_complete\<close> event whose result is neither \<open>SUCCESS\<close> nor
  \<open>FAILURE\<close> (a missing result included), leaves the whole manager as it was: the
  status is unchanged, and a registered handler and a pending timer stay registered
  and pending.
\<close>

theorem non_terminal_event_ignored:
  assumes "savedOrgFolder s = Some folder"
    and "indexOf (blueocean_job_rest_url event) (self_href folder) \<noteq> 0
         \<or> (indexOf (blueocean_job_rest_url event) (self_href folder) = 0
            \<and> jenkins_event event = ''job_run_queue_task_complete''
            \<and> job_multibranch_indexing_result event \<noteq> Some ''SUCCESS''
            \<and> job_multibranch_indexing_result event \<noteq> Some ''FAILURE'')"
  shows "onSseEvent event s = Inr s \<and> sse_deliver event s = s
         \<and> status (sse_deliver event s) = status s
         \<and> sseSubscribeId (sse_deliver event s) = sseSubscribeId s
         \<and> sseTimeoutId (sse_deliver event s) = sseTimeoutId s
         \<and> subscribed (sse_deliver event s) = subscribed s
         \<and> timer_pending (sse_deliver event s) = timer_pending s"
proof -
  from assms have "onSseEvent event s = Inr s"
    by (auto simp: onSseEvent_def)
  then have "sse_deliver event s = s"
    by (simp add: sse_deliver_def)
  with \<open>onSseEvent event s = Inr s\<close> show ?thesis by simp
qed

theorem non_terminal_event_ignored_witness:
  "subscribed armed_acme \<and> timer_pending armed_acme
   \<and> sse_deliver \<lparr>blueocean_job_rest_url = ''/orgs/other/'',
        jenkins_event = ''job_run_queue_task_complete'',
        job_multibranch_indexing_result = Some ''SUCCESS''\<rparr> armed_acme = armed_acme
   \<and> sse_deliver \<lparr>blueocean_job_rest_url = ''/orgs/acme/'',
        jenkins_event = ''job_run_queue_task_complete'',
        job_multibranch_indexing_result = None\<rparr> armed_acme = armed_acme"
  using non_terminal_event_ignored
    [of armed_acme acme_folder
        "\<lparr>blueocean_job_rest_url = ''/orgs/other/'',
          jenkins_event = ''job_run_queue_task_complete'',
          job_multibranch_indexing_result = Some ''SUCCESS''\<rparr>"]
    non_terminal_event_ignored
    [of armed_acme acme_folder
        "\<lparr>blueocean_job_rest_url = ''/orgs/acme/'',
          jenkins_event = ''job_run_queue_task_complete'',
          job_multibranch_indexing_result = None\<rparr>"]
  by (simp add: armed_acme_fields acme_folder_def indexOf_zero_prefix subscribed_def
      timer_pending_def)

text \<open>
  Claim C10. Matching is by prefix: an event counts as one for the saved org folder
  exactly when its \<open>blueocean_job_rest_url\<close> starts with the folder's self link, and the
  handler acts on nothing else of the URL. So an event for a resource below the saved
  folder's URL, that is the self link followed by anything, is acted on like one for the
  folder itself.
\<close>

theorem matching_is_by_prefix:
  assumes "savedOrgFolder s = Some folder"
  shows "(targets_saved event s \<longleftrightarrow> prefix (self_href folder) (blueocean_job_rest_url event))
    \<and> onSseEvent event s =
       Inr (if prefix (self_href folder) (blueocean_job_rest_url event)
               \<and> jenkins_event event = ''job_run_queue_task_complete''
               \<and> job_multibranch_indexing_result event = Some ''SUCCESS''
            then cleanupListeners (setStatus STEP_COMPLETE_SUCCESS s)
            else if prefix (self_href folder) (blueocean_job_rest_url event)
               \<and> jenkins_event event = ''job_run_queue_task_complete''
               \<and> job_multibranch_indexing_result event = Some ''FAILURE''
            then cleanupListeners (setStatus STEP_COMPLETE_EVENT_ERROR s)
            else s)
    \<and> (\<forall>rest. status (sse_deliver
           \<lparr>blueocean_job_rest_url = self_href folder @ rest,
            jenkins_event = ''job_run_queue_task_complete'',
            job_multibranch_indexing_result = Some ''FAILURE''\<rparr> s)
         = (if subscribed s then Some STEP_COMPLETE_EVENT_ERROR else status s))"
  using assms onSseEvent_cases [OF assms]
  by (simp add: targets_saved_def indexOf_zero_prefix sse_deliver_def subscribed_def
      cleanupListeners_fields setStatus_def)

theorem matching_is_by_prefix_witness:
  "targets_saved \<lparr>blueocean_job_rest_url = ''/orgs/acme/pipelines/repo1/'',
        jenkins_event = ''job_run_queue_task_complete'',
        job_multibranch_indexing_result = Some ''FAILURE''\<rparr> armed_acme
   \<and> \<not> targets_saved \<lparr>blueocean_job_rest_url = ''/rest/orgs/acme/'',
        jenkins_event = ''job_run_queue_task_complete'',
        job_multibranch_indexing_result = Some ''FAILURE''\<rparr> armed_acme
   \<and> status (sse_deliver \<lparr>blueocean_job_rest_url = ''/orgs/acme/pipelines/repo1/'',
        jenkins_event = ''job_run_queue_task_complete'',
        job_multibranch_indexing_result = Some ''FAILURE''\<rparr> armed_acme)
     = Some STEP_COMPLETE_EVENT_ERROR"
  using matching_is_by_prefix
    [of armed_acme acme_folder
        "\<lparr>blueocean_job_rest_url = ''/orgs/acme/pipelines/repo1/'',
          jenkins_event = ''job_run_queue_task_complete'',
          job_multibranch_indexing_result = Some ''FAILURE''\<rparr>"]
    matching_is_by_prefix
    [of armed_acme acme_folder
        "\<lparr>blueocean_job_rest_url = ''/rest/orgs/acme/'',
          jenkins_event = ''job_run_queue_task_complete'',
          job_multibranch_indexing_result = Some ''FAILURE''\<rparr>"]
  by (simp add: armed_acme_fields acme_folder_def subscribed_def sse_deliver_def
      cleanupListeners_fields setStatus_def)

section \<open>Calls and their continuations\<close>

text \<open>Calling and settling at once is the call with its continuation as one function.\<close>

lemma listOrganizations_split:
  "fst (listOrganizations orgsResponse s)
     = fst (listOrganizations_settled orgsResponse (fst (listOrganizations_call s)))"
  by (simp add: listOrganizations_def listOrganizations_settled_def listOrganizations_call_def
      Let_def split: prod.splits)

lemma findExistingCredential_split:
  "fst (findExistingCredential credResponse orgsResponse s)
     = (case findExistingCredential_settled credResponse (fst (findExistingCredential_call s)) of
          (s', []) \<Rightarrow> s'
        | (s', p # ps) \<Rightarrow> fst (listOrganizations_settled orgsResponse s'))"
  by (cases credResponse)
     (auto simp: findExistingCredential_def findExistingCredential_settled_def
        findExistingCredential_call_def afterInitialStep_def afterInitialStep_call_def
        listOrganizations_split listOrganizations_call_def delayed_def then1_def waitAtLeast_def
        split: option.splits)

lemma createAccessToken_split:
  "fst (createAccessToken token credResponse orgsResponse s)
     = (case createAccessToken_settled credResponse (fst (createAccessToken_call token s)) of
          (s', []) \<Rightarrow> s'
        | (s', p # ps) \<Rightarrow> fst (listOrganizations_settled orgsResponse s'))"
  by (cases credResponse)
     (auto simp: createAccessToken_def createAccessToken_settled_def createAccessToken_call_def
        createTokenSuccess_def createTokenSuccess_call_def createTokenFailure_def
        listOrganizations_split listOrganizations_call_def delayed_def then1_def then2_def
        waitAtLeast_def Let_def)

lemma saveOrgFolder_split:
  "fst (saveOrgFolder repoNames response sid tid s)
     = (case saveOrgFolder_call repoNames s of
          (s', []) \<Rightarrow> s'
        | (s', p # ps) \<Rightarrow> fst (saveOrgFolder_settled response sid tid s'))"
  by (auto simp: saveOrgFolder_def saveOrgFolder_call_def saveOrgFolder_settled_def Let_def
      split: option.splits prod.splits)

lemma updateRepositories_split:
  assumes "nextPage repoData \<noteq> PageNull"
  shows "updateRepositories n repoData (Inr repos2 # rest) s
           = updateRepositories n repos2 rest (fst (page_settled n (Inr repoData) s))"
  using assms by (simp add: page_settled_def updateRepositories_more)

lemma selectDiscover_split:
  "fst (selectDiscover discover [] s) = fst (selectDiscover_call discover s)"
  by (simp add: selectDiscover_def selectDiscover_call_def loadAllRepositories_then_def Let_def
      split: option.splits)

section \<open>The listeners\<close>

lemma listeners_simple [simp]:
  "listeners (callApi c s) = listeners s"
  "listeners (pushStep st s) = listeners s"
  "listeners (replaceCurrentStep st s) = listeners s"
  "listeners (setPendingSteps ps s) = listeners s"
  "listeners (setStatus x s) = listeners s"
  "listeners (s\<lparr>organizations := orgs\<rparr>) = listeners s"
  "listeners (s\<lparr>repositories := rs\<rparr>) = listeners s"
  "listeners (s\<lparr>repositoryCache := rc\<rparr>) = listeners s"
  "listeners (s\<lparr>credentialIdField := c'\<rparr>) = listeners s"
  "listeners (s\<lparr>selectedOrganization := so\<rparr>) = listeners s"
  "listeners (s\<lparr>selectedRepository := sr\<rparr>) = listeners s"
  "listeners (s\<lparr>discoverSelection := ds\<rparr>) = listeners s"
  by (simp_all add: listeners_def callApi_def pushStep_def replaceCurrentStep_def
      setPendingSteps_def setStatus_def)

lemma listeners_listOrganizations [simp]:
  "listeners (fst (listOrganizations_call s)) = listeners s"
  "listeners (fst (listOrganizations_settled orgsResponse s)) = listeners s"
  by (cases orgsResponse;
      simp add: listOrganizations_call_def listOrganizations_settled_def delayed_def then1_def
        waitAtLeast_def updateOrganizations_def)+

lemma listeners_findExistingCredential [simp]:
  "listeners (fst (afterInitialStep_call cred s)) = listeners s"
  "listeners (fst (findExistingCredential_call s)) = listeners s"
  "listeners (fst (findExistingCredential_settled credResponse s)) = listeners s"
proof -
  show a: "listeners (fst (afterInitialStep_call cred s)) = listeners s" for cred s
    by (simp add: afterInitialStep_call_def split: option.splits)
  show "listeners (fst (findExistingCredential_call s)) = listeners s"
    by (simp add: findExistingCredential_call_def)
  show "listeners (fst (findExistingCredential_settled credResponse s)) = listeners s"
    by (cases credResponse)
       (simp_all add: findExistingCredential_settled_def delayed_def then1_def waitAtLeast_def a)
qed

lemma listeners_createAccessToken [simp]:
  "listeners (fst (createAccessToken_call token s)) = listeners s"
  "listeners (fst (createAccessToken_settled credResponse s)) = listeners s"
  by (cases credResponse;
      simp add: createAccessToken_call_def createAccessToken_settled_def delayed_def then1_def
        waitAtLeast_def createTokenSuccess_call_def createTokenFailure_def Let_def)+

lemma listeners_select [simp]:
  "listeners (selectOrganization org s) = listeners s"
  "listeners (selectRepository r s) = listeners s"
  by (simp_all add: selectOrganization_def selectRepository_def)

lemma listeners_updateRepositories [simp]:
  "listeners (updateRepositories n repoData future s) = listeners s"
proof (induction future arbitrary: repoData s)
  case Nil
  show ?case
    by (subst updateRepositories.simps) (simp add: Let_def loadPagedRepository_def)
next
  case (Cons r rest)
  show ?case
  proof (cases "nextPage repoData = PageNull")
    case True
    then show ?thesis
      by (subst updateRepositories.simps) (simp add: Let_def)
  next
    case False
    then show ?thesis
      by (cases r)
         (simp_all add: updateRepositories_more Cons.IH after_page_def loadPagedRepository_def)
  qed
qed

lemma listeners_pages [simp]:
  "listeners (loadAllRepositories org s) = listeners s"
  "listeners (fst (selectDiscover_call discover s)) = listeners s"
  "listeners (fst (page_settled n response s)) = listeners s"
  by (simp_all add: loadAllRepositories_def loadPagedRepository_def selectDiscover_call_def
      page_settled_def Let_def split: option.splits sum.splits)

lemma listeners_save_call [simp]:
  "listeners (fst (saveOrgFolder_call repoNames s)) = listeners s"
  "listeners (fst (saveAutoDiscover_call s)) = listeners s"
  "listeners (fst (saveSingleRepo_call s)) = listeners s"
proof -
  show a: "listeners (fst (saveOrgFolder_call repoNames s)) = listeners s" for repoNames
    by (simp add: saveOrgFolder_call_def Let_def split: option.splits)
  show "listeners (fst (saveAutoDiscover_call s)) = listeners s"
    by (simp add: saveAutoDiscover_call_def a)
  show "listeners (fst (saveSingleRepo_call s)) = listeners s"
    by (simp add: saveSingleRepo_call_def a split: sum.splits)
qed

lemma saveOrgFolder_settled_cases:
  "fst (saveOrgFolder_settled (Inr orgFolder) sid tid s) = saveOrgFolderSuccess orgFolder sid tid s"
  "fst (saveOrgFolder_settled (Inl e) sid tid s) = saveOrgFolderFailure s"
  by (simp_all add: saveOrgFolder_settled_def then1_def then2_def waitAtLeast_def)

lemma listeners_save_failed [simp]:
  "listeners (fst (saveOrgFolder_settled (Inl e) sid tid s)) = listeners s"
  by (simp add: saveOrgFolder_settled_cases saveOrgFolderFailure_def)

lemma listeners_saveOrgFolderSuccess:
  "listeners (saveOrgFolderSuccess orgFolder sid tid s)
     = (Some sid, Some tid, insert sid (sseHandlers s), insert tid (timers s), Some orgFolder)"
  by (simp add: saveOrgFolderSuccess_def listeners_def setStatus_def)

lemma mgr_called [simp]: "mgr (called r w) = fst r"
  by (simp add: called_def)

lemma perform_cases:
  obtains (arm) orgFolder sid tid where "a = Settle (FolderSaved (Inr orgFolder) sid tid)"
  | (event) e where "a = SseEvent e"
  | (timer) t where "a = TimerFires t"
  | (destroy) "a = Destroy"
  | (other) "\<And>w. listeners (mgr (perform a w)) = listeners (mgr w)"
proof (cases a)
  case (Settle x)
  show ?thesis
  proof (cases x)
    case (FolderSaved response sid tid)
    show ?thesis
    proof (cases response)
      case (Inl e)
      with Settle FolderSaved have "listeners (mgr (perform a w)) = listeners (mgr w)" for w
        by simp
      then show ?thesis by (rule other)
    next
      case (Inr orgFolder)
      with Settle FolderSaved show ?thesis by (auto intro: arm)
    qed
  qed (use Settle in \<open>auto intro!: other\<close>)
qed (auto intro: event timer destroy intro!: other)

lemma perform_arm:
  "mgr (perform (Settle (FolderSaved (Inr orgFolder) sid tid)) w)
     = (if PSave \<in> set (pending w) then saveOrgFolderSuccess orgFolder sid tid (mgr w) else mgr w)"
  by (simp add: saveOrgFolder_settled_cases)

lemma pair_ok_listeners: "listeners s' = listeners s \<Longrightarrow> pair_ok s' = pair_ok s"
  by (simp add: listeners_def pair_ok_def)

lemma tracked_listeners: "listeners s' = listeners s \<Longrightarrow> tracked s' = tracked s"
  by (simp add: listeners_def tracked_def)

lemma registered_listeners: "listeners s' = listeners s \<Longrightarrow> registered s' = registered s"
  by (simp add: listeners_def registered_def)

lemma cleanupListeners_pair_ok:
  assumes "pair_ok s"
  shows "sseSubscribeId (cleanupListeners s) = None"
    and "sseTimeoutId (cleanupListeners s) = None"
    and "sseHandlers (cleanupListeners s) = sseHandlers s - set_option (sseSubscribeId s)"
    and "timers (cleanupListeners s) = timers s - set_option (sseTimeoutId s)"
  using assms
  by (auto simp: cleanupListeners_def pair_ok_def Let_def split: option.splits)

lemma cleanupListeners_disarmed:
  assumes "sseSubscribeId s = None" and "sseTimeoutId s = None"
  shows "cleanupListeners s = s"
  using assms by (simp add: cleanupListeners_def)

lemma setStatus_listener_fields [simp]:
  "sseSubscribeId (setStatus x s) = sseSubscribeId s"
  "sseTimeoutId (setStatus x s) = sseTimeoutId s"
  "sseHandlers (setStatus x s) = sseHandlers s"
  "timers (setStatus x s) = timers s"
  by (simp_all add: setStatus_def)

lemma pair_ok_setStatus [simp]: "pair_ok (setStatus x s) = pair_ok s"
  by (simp add: pair_ok_def setStatus_def)

lemma pair_ok_timers [simp]: "pair_ok (s\<lparr>timers := ts\<rparr>) = pair_ok s"
  by (simp add: pair_ok_def)

lemma pair_ok_cleanup: "pair_ok s \<Longrightarrow> pair_ok (cleanupListeners s)"
  by (simp add: cleanupListeners_pair_ok pair_ok_def [of "cleanupListeners s"])

lemma pair_ok_sse_deliver: "pair_ok s \<Longrightarrow> pair_ok (sse_deliver event s)"
  by (auto simp: sse_deliver_def onSseEvent_def pair_ok_cleanup split: option.splits)

lemma pair_ok_timer_fires: "pair_ok s \<Longrightarrow> pair_ok (timer_fires t s)"
  by (simp add: timer_fires_def onSseTimeout_def pair_ok_cleanup)

lemma armed_invariants:
  "sid \<noteq> 0 \<Longrightarrow> tid \<noteq> 0 \<Longrightarrow> pair_ok (saveOrgFolderSuccess orgFolder sid tid s)"
  "registered (saveOrgFolderSuccess orgFolder sid tid s)"
  "sseHandlers s = {} \<Longrightarrow> timers s = {} \<Longrightarrow> tracked (saveOrgFolderSuccess orgFolder sid tid s)"
  by (simp_all add: pair_ok_def registered_def tracked_def saveOrgFolderSuccess_def setStatus_def)

lemma perform_pair_ok:
  assumes "pair_ok (mgr w)" and "truthy_handles a"
  shows "pair_ok (mgr (perform a w))"
proof (cases a rule: perform_cases)
  case (arm orgFolder sid tid)
  with assms show ?thesis
    by (simp only: perform_arm) (simp add: armed_invariants)
next
  case (event e)
  with assms show ?thesis by (simp add: pair_ok_sse_deliver)
next
  case (timer t)
  with assms show ?thesis by (simp add: pair_ok_timer_fires)
next
  case destroy
  with assms show ?thesis by (simp add: destroy_def pair_ok_cleanup)
next
  case other
  with assms(1) show ?thesis by (simp add: pair_ok_listeners [of "mgr (perform a w)" "mgr w"])
qed

lemma registered_cleanup: "pair_ok s \<Longrightarrow> registered (cleanupListeners s)"
  by (simp add: registered_def cleanupListeners_pair_ok)

lemma perform_registered:
  assumes "pair_ok (mgr w)" and "registered (mgr w)"
  shows "registered (mgr (perform a w))"
proof (cases a rule: perform_cases)
  case (arm orgFolder sid tid)
  with assms(2) show ?thesis
    by (simp only: perform_arm) (simp add: armed_invariants)
next
  case (event e)
  have "registered (cleanupListeners (setStatus x (mgr w)))" for x
    using assms(1) by (simp add: registered_cleanup)
  with event assms(2) show ?thesis
    by (auto simp: sse_deliver_def onSseEvent_def split: option.splits)
next
  case (timer t)
  have "registered (cleanupListeners (setStatus x ((mgr w)\<lparr>timers := ts\<rparr>)))" for x ts
    using assms(1) by (simp add: registered_cleanup)
  with timer assms(2) show ?thesis
    by (simp add: timer_fires_def onSseTimeout_def)
next
  case destroy
  with assms(1) show ?thesis by (simp add: destroy_def registered_cleanup)
next
  case other
  with assms(2) show ?thesis
    by (simp add: registered_listeners [of "mgr (perform a w)" "mgr w"])
qed

lemma tracked_cleanup:
  assumes "pair_ok s" and "sseHandlers s \<subseteq> set_option (sseSubscribeId s)"
    and "timers s \<subseteq> set_option (sseTimeoutId s)"
  shows "tracked (cleanupListeners s)" and "sseHandlers (cleanupListeners s) = {}"
    and "timers (cleanupListeners s) = {}"
  using assms by (auto simp: tracked_def cleanupListeners_pair_ok)

lemma tracked_sse_deliver:
  assumes "pair_ok s" and "tracked s"
  shows "tracked (sse_deliver event s)"
proof -
  have "tracked (cleanupListeners (setStatus x s))" for x
    using assms by (intro tracked_cleanup) (simp_all add: tracked_def)
  with assms(2) show ?thesis
    by (auto simp: sse_deliver_def onSseEvent_def split: option.splits)
qed

lemma tracked_timer_fires:
  assumes "pair_ok s" and "tracked s"
  shows "tracked (timer_fires t s)"
proof (cases "t \<in> timers s")
  case True
  have "tracked (cleanupListeners (setStatus x (s\<lparr>timers := timers s - {t}\<rparr>)))" for x
    using assms by (intro tracked_cleanup) (auto simp: tracked_def)
  with True show ?thesis by (simp add: timer_fires_def onSseTimeout_def)
next
  case False
  with assms show ?thesis by (simp add: timer_fires_def)
qed

lemma perform_tracked:
  assumes "pair_ok (mgr w)" and "tracked (mgr w)"
    and "arms a w \<longrightarrow> \<not> subscribed (mgr w) \<and> \<not> timer_pending (mgr w)"
  shows "tracked (mgr (perform a w))"
proof (cases a rule: perform_cases)
  case (arm orgFolder sid tid)
  show ?thesis
  proof (cases "PSave \<in> set (pending w)")
    case True
    with arm assms(3) have "sseHandlers (mgr w) = {}" "timers (mgr w) = {}"
      by (simp_all add: subscribed_def timer_pending_def)
    with arm True show ?thesis
      by (simp only: perform_arm) (simp add: armed_invariants)
  next
    case False
    with arm assms(2) show ?thesis by (simp only: perform_arm) simp
  qed
next
  case (event e)
  with assms show ?thesis by (simp add: tracked_sse_deliver)
next
  case (timer t)
  with assms show ?thesis by (simp add: tracked_timer_fires)
next
  case destroy
  have "tracked (cleanupListeners (mgr w))"
    using assms by (intro tracked_cleanup) (simp_all add: tracked_def)
  with destroy show ?thesis by (simp add: destroy_def)
next
  case other
  with assms(2) show ?thesis by (simp add: tracked_listeners [of "mgr (perform a w)" "mgr w"])
qed

lemma run_pair_ok:
  assumes "pair_ok (mgr w)" and "\<forall>a \<in> set acts. truthy_handles a"
  shows "pair_ok (mgr (run acts w))"
  using assms by (induction acts arbitrary: w) (simp_all add: perform_pair_ok)

lemma run_registered:
  assumes "pair_ok (mgr w)" and "registered (mgr w)" and "\<forall>a \<in> set acts. truthy_handles a"
  shows "registered (mgr (run acts w))"
  using assms by (induction acts arbitrary: w) (simp_all add: perform_pair_ok perform_registered)

lemma run_tracked:
  assumes "pair_ok (mgr w)" and "tracked (mgr w)" and "\<forall>a \<in> set acts. truthy_handles a"
    and "arms_when_disarmed acts w"
  shows "tracked (mgr (run acts w))"
  using assms by (induction acts arbitrary: w) (simp_all add: perform_pair_ok perform_tracked)

lemma initial_world_ok:
  "pair_ok (mgr initial_world)" "tracked (mgr initial_world)" "registered (mgr initial_world)"
  by (simp_all add: pair_ok_def tracked_def registered_def initial_world_def initial_state_def)

lemma tracked_both:
  assumes "pair_ok s" and "tracked s"
  shows "subscribed s \<longleftrightarrow> timer_pending s" and "subscribed s \<longleftrightarrow> sseSubscribeId s \<noteq> None"
  using assms by (auto simp: pair_ok_def tracked_def subscribed_def timer_pending_def)

lemma run_append: "run (xs @ ys) w = run ys (run xs w)"
  by (induction xs arbitrary: w) simp_all

lemma terminal_event_listeners:
  "listeners s' = listeners s \<Longrightarrow> terminal_event event s' = terminal_event event s"
  by (simp add: listeners_def terminal_event_def targets_saved_def)

lemma perform_quiet:
  assumes "quiet a" and "\<forall>e. a = SseEvent e \<longrightarrow> \<not> terminal_event e (mgr w)"
  shows "listeners (mgr (perform a w)) = listeners (mgr w)"
proof (cases a rule: perform_cases)
  case (event e)
  with assms(2) show ?thesis by (simp add: non_terminal_ignored)
next
  case other
  then show ?thesis by simp
qed (use assms(1) in simp_all)

lemma run_quiet:
  assumes "\<forall>a \<in> set acts. quiet a"
    and "\<forall>e. SseEvent e \<in> set acts \<longrightarrow> \<not> terminal_event e (mgr w)"
  shows "listeners (mgr (run acts w)) = listeners (mgr w)"
  using assms
proof (induction acts arbitrary: w)
  case Nil
  show ?case by simp
next
  case (Cons a acts)
  have step: "listeners (mgr (perform a w)) = listeners (mgr w)"
    using Cons.prems by (intro perform_quiet) auto
  have "\<forall>e. SseEvent e \<in> set acts \<longrightarrow> \<not> terminal_event e (mgr (perform a w))"
    using Cons.prems(2) by (simp add: terminal_event_listeners [OF step])
  with Cons.IH [of "perform a w"] Cons.prems(1) step show ?case by simp
qed

lemmas run_defs =
  initial_world_def initial_state_def called_def selectOrganization_def saveAutoDiscover_call_def
  saveOrgFolder_call_def saveOrgFolder_settled_def saveOrgFolderSuccess_def setStatus_def
  pushStep_def setPendingSteps_def callApi_def then1_def then2_def waitAtLeast_def
  timer_fires_def onSseTimeout_def cleanupListeners_def sse_deliver_def onSseEvent_def
  subscribed_def timer_pending_def acme_def acme_folder_def indexOf_zero_prefix Let_def

text \<open>
  Claim C4, as stated, fails when the listeners are armed while those of an earlier
  save are still registered: \<^verbatim>\<open>_saveOrgFolderSuccess\<close> overwrites the recorded handles
  without releasing the earlier handler. The timeout of the second arming then sets the
  timeout status and releases the second pair only; the first handler is still
  registered, and a matching event delivered afterwards changes the status.
\<close>

theorem stale_handler_after_timeout:
  "status (mgr (run [SelectOrganization acme, SaveAutoDiscover,
                     Settle (FolderSaved (Inr acme_folder) 1 1), SaveAutoDiscover,
                     Settle (FolderSaved (Inr acme_folder) 2 2), TimerFires 2] initial_world))
     = Some STEP_COMPLETE_EVENT_TIMEOUT
   \<and> subscribed (mgr (run [SelectOrganization acme, SaveAutoDiscover,
                     Settle (FolderSaved (Inr acme_folder) 1 1), SaveAutoDiscover,
                     Settle (FolderSaved (Inr acme_folder) 2 2), TimerFires 2] initial_world))
   \<and> status (mgr (perform (SseEvent \<lparr>blueocean_job_rest_url = ''/orgs/acme/'',
                     jenkins_event = ''job_run_queue_task_complete'',
                     job_multibranch_indexing_result = Some ''FAILURE''\<rparr>)
               (run [SelectOrganization acme, SaveAutoDiscover,
                     Settle (FolderSaved (Inr acme_folder) 1 1), SaveAutoDiscover,
                     Settle (FolderSaved (Inr acme_folder) 2 2), TimerFires 2] initial_world)))
     = Some STEP_COMPLETE_EVENT_ERROR"
  by (auto simp: run_defs)

text \<open>
  Claim C4, amended. Arm the listeners, by a save settling successfully, on a manager that
  has no handler registered and no timer pending, the handles given out being truthy.
  If then the timeout fires, with no matching terminal event, no further arming and no
  \<^verbatim>\<open>destroy\<close> in between (any other calls, settlements and events may come; the armed
  timer is the only one pending, so no other timeout can), the status
  is the timeout-error variant, both recorded handles are cleared, no handler is
  registered and no timer is pending any more, and no event delivered afterwards,
  matching or not, changes anything.
\<close>

theorem timeout_disarms:
  assumes "\<not> subscribed (mgr w)" and "\<not> timer_pending (mgr w)"
    and "sid \<noteq> 0" and "tid \<noteq> 0" and "PSave \<in> set (pending w)"
    and "\<forall>a \<in> set acts. quiet a"
    and "\<forall>e. SseEvent e \<in> set acts
           \<longrightarrow> \<not> terminal_event e (saveOrgFolderSuccess orgFolder sid tid (mgr w))"
  shows "status (mgr (run (Settle (FolderSaved (Inr orgFolder) sid tid) # acts @ [TimerFires tid]) w))
           = Some STEP_COMPLETE_EVENT_TIMEOUT
    \<and> sseSubscribeId (mgr (run (Settle (FolderSaved (Inr orgFolder) sid tid) # acts @ [TimerFires tid]) w)) = None
    \<and> sseTimeoutId (mgr (run (Settle (FolderSaved (Inr orgFolder) sid tid) # acts @ [TimerFires tid]) w)) = None
    \<and> \<not> subscribed (mgr (run (Settle (FolderSaved (Inr orgFolder) sid tid) # acts @ [TimerFires tid]) w))
    \<and> \<not> timer_pending (mgr (run (Settle (FolderSaved (Inr orgFolder) sid tid) # acts @ [TimerFires tid]) w))
    \<and> (\<forall>later. perform (SseEvent later)
           (run (Settle (FolderSaved (Inr orgFolder) sid tid) # acts @ [TimerFires tid]) w)
         = run (Settle (FolderSaved (Inr orgFolder) sid tid) # acts @ [TimerFires tid]) w)"
proof -
  define w1 where "w1 = perform (Settle (FolderSaved (Inr orgFolder) sid tid)) w"
  define w2 where "w2 = run acts w1"
  define w3 where "w3 = perform (TimerFires tid) w2"
  have run: "run (Settle (FolderSaved (Inr orgFolder) sid tid) # acts @ [TimerFires tid]) w = w3"
    by (simp add: run_append w1_def w2_def w3_def)
  have armed: "mgr w1 = saveOrgFolderSuccess orgFolder sid tid (mgr w)"
    unfolding w1_def using assms(5) by (simp only: perform_arm) simp
  have l1: "listeners (mgr w1) = (Some sid, Some tid, {sid}, {tid}, Some orgFolder)"
    unfolding armed listeners_saveOrgFolderSuccess
    using assms(1,2) by (simp add: subscribed_def timer_pending_def)
  have "listeners (mgr w2) = listeners (mgr w1)"
    unfolding w2_def using assms(6,7) by (intro run_quiet) (simp_all only: armed)
  with l1 have l2: "sseSubscribeId (mgr w2) = Some sid" "sseTimeoutId (mgr w2) = Some tid"
    "sseHandlers (mgr w2) = {sid}" "timers (mgr w2) = {tid}"
    by (simp_all add: listeners_def)
  define pre where "pre = setStatus STEP_COMPLETE_EVENT_TIMEOUT ((mgr w2)\<lparr>timers := {}\<rparr>)"
  have fired: "mgr w3 = cleanupListeners pre"
    by (simp add: w3_def pre_def timer_fires_def onSseTimeout_def l2)
  have pre: "sseHandlers pre = {sid}" "timers pre = {}" "sseSubscribeId pre = Some sid"
    "sseTimeoutId pre = Some tid" "status pre = Some STEP_COMPLETE_EVENT_TIMEOUT"
    by (simp_all add: pre_def l2) (simp add: setStatus_def)
  have ok: "pair_ok pre"
    using assms(3,4) by (simp add: pair_ok_def pre)
  have fields: "status (mgr w3) = Some STEP_COMPLETE_EVENT_TIMEOUT"
    "sseSubscribeId (mgr w3) = None" "sseTimeoutId (mgr w3) = None"
    "sseHandlers (mgr w3) = {}" "timers (mgr w3) = {}"
    unfolding fired
    using cleanupListeners_pair_ok [OF ok] cleanupListeners_fields(1) [of pre] pre
    by simp_all
  have "perform (SseEvent later) w3 = w3" for later
    by (simp add: called_def sse_deliver_def fields)
  with fields show ?thesis
    unfolding run by (simp add: subscribed_def timer_pending_def)
qed

theorem timeout_disarms_witness:
  "status (mgr (run [Settle (FolderSaved (Inr acme_folder) 7 9), SelectRepository None,
        SseEvent \<lparr>blueocean_job_rest_url = ''/orgs/other/'',
          jenkins_event = ''job_run_queue_task_complete'',
          job_multibranch_indexing_result = Some ''SUCCESS''\<rparr>,
        TimerFires 9]
      (run [SelectOrganization acme, SaveAutoDiscover] initial_world)))
     = Some STEP_COMPLETE_EVENT_TIMEOUT
   \<and> \<not> subscribed (mgr (run [Settle (FolderSaved (Inr acme_folder) 7 9), SelectRepository None,
        SseEvent \<lparr>blueocean_job_rest_url = ''/orgs/other/'',
          jenkins_event = ''job_run_queue_task_complete'',
          job_multibranch_indexing_result = Some ''SUCCESS''\<rparr>,
        TimerFires 9]
      (run [SelectOrganization acme, SaveAutoDiscover] initial_world)))
   \<and> mgr (perform (SseEvent \<lparr>blueocean_job_rest_url = ''/orgs/acme/'',
          jenkins_event = ''job_run_queue_task_complete'',
          job_multibranch_indexing_result = Some ''SUCCESS''\<rparr>)
       (run [Settle (FolderSaved (Inr acme_folder) 7 9), SelectRepository None,
        SseEvent \<lparr>blueocean_job_rest_url = ''/orgs/other/'',
          jenkins_event = ''job_run_queue_task_complete'',
          job_multibranch_indexing_result = Some ''SUCCESS''\<rparr>,
        TimerFires 9]
      (run [SelectOrganization acme, SaveAutoDiscover] initial_world)))
     = mgr (run [Settle (FolderSaved (Inr acme_folder) 7 9), SelectRepository None,
        SseEvent \<lparr>blueocean_job_rest_url = ''/orgs/other/'',
          jenkins_event = ''job_run_queue_task_complete'',
          job_multibranch_indexing_result = Some ''SUCCESS''\<rparr>,
        TimerFires 9]
      (run [SelectOrganization acme, SaveAutoDiscover] initial_world))"
proof -
  let ?w = "run [SelectOrganization acme, SaveAutoDiscover] initial_world"
  let ?other = "\<lparr>blueocean_job_rest_url = ''/orgs/other/'',
          jenkins_event = ''job_run_queue_task_complete'',
          job_multibranch_indexing_result = Some ''SUCCESS''\<rparr>"
  let ?acts = "[SelectRepository None, SseEvent ?other]"
  have w: "\<not> subscribed (mgr ?w)" "\<not> timer_pending (mgr ?w)" "PSave \<in> set (pending ?w)"
    by (simp_all add: run_defs)
  have quiet: "\<forall>a \<in> set ?acts. quiet a" by simp
  have other: "\<forall>e. SseEvent e \<in> set ?acts
      \<longrightarrow> \<not> terminal_event e (saveOrgFolderSuccess acme_folder 7 9 (mgr ?w))"
    by (simp add: terminal_event_def targets_saved_def saveOrgFolderSuccess_def setStatus_def
        acme_folder_def indexOf_zero_prefix)
  from timeout_disarms [where sid = 7 and tid = 9, OF w(1,2) _ _ w(3) quiet other]
  show ?thesis by simp
qed

text \<open>
  Claim C5, as stated, fails when two saves are both armed: the second
  \<^verbatim>\<open>_saveOrgFolderSuccess\<close> overwrites the two recorded handles, so cleanup releases only
  the second pair. Here both saves are started while nothing is registered and settle one
  after the other; when the first timer fires, the first handler is still registered
  and no timer is pending.
\<close>

theorem rearming_leaves_handler:
  "subscribed (mgr (run [SelectOrganization acme, SaveAutoDiscover, SaveAutoDiscover,
                    Settle (FolderSaved (Inr acme_folder) 1 1),
                    Settle (FolderSaved (Inr acme_folder) 2 2), TimerFires 1] initial_world))
   \<and> \<not> timer_pending (mgr (run [SelectOrganization acme, SaveAutoDiscover, SaveAutoDiscover,
                    Settle (FolderSaved (Inr acme_folder) 1 1),
                    Settle (FolderSaved (Inr acme_folder) 2 2), TimerFires 1] initial_world))"
  by (auto simp: run_defs)

text \<open>
  Claim C5, amended. Provided \<^verbatim>\<open>registerHandler\<close> and \<^verbatim>\<open>setTimeout\<close> return truthy
  handles: in every state a flow manager reaches, by any sequence of method calls,
  settling promises, events and timeouts, the recorded subscription handle and the
  recorded timer handle are both set or both \<open>null\<close>, and a recorded handle is
  registered with the environment (arming records and installs both together);
  disarming clears both recorded handles, releases the recorded handler and timer, and
  is idempotent. In every state reached by a run in which the listeners are only armed
  while no handler is registered and no timer is pending, the subscription and the timer
  themselves are both active or both inactive, active exactly when recorded, and
  disarming leaves neither active.
\<close>

theorem listeners_paired:
  assumes "\<forall>a \<in> set acts. truthy_handles a"
  shows "(sseSubscribeId (mgr (run acts initial_world)) = None
            \<longleftrightarrow> sseTimeoutId (mgr (run acts initial_world)) = None)
    \<and> (\<forall>h. sseSubscribeId (mgr (run acts initial_world)) = Some h
            \<longrightarrow> h \<in> sseHandlers (mgr (run acts initial_world)))
    \<and> (\<forall>t. sseTimeoutId (mgr (run acts initial_world)) = Some t
            \<longrightarrow> t \<in> timers (mgr (run acts initial_world)))
    \<and> sseSubscribeId (cleanupListeners (mgr (run acts initial_world))) = None
    \<and> sseTimeoutId (cleanupListeners (mgr (run acts initial_world))) = None
    \<and> sseHandlers (cleanupListeners (mgr (run acts initial_world)))
        = sseHandlers (mgr (run acts initial_world))
          - set_option (sseSubscribeId (mgr (run acts initial_world)))
    \<and> timers (cleanupListeners (mgr (run acts initial_world)))
        = timers (mgr (run acts initial_world))
          - set_option (sseTimeoutId (mgr (run acts initial_world)))
    \<and> cleanupListeners (cleanupListeners (mgr (run acts initial_world)))
        = cleanupListeners (mgr (run acts initial_world))
    \<and> (arms_when_disarmed acts initial_world \<longrightarrow>
         (subscribed (mgr (run acts initial_world))
            \<longleftrightarrow> timer_pending (mgr (run acts initial_world)))
         \<and> (subscribed (mgr (run acts initial_world))
              \<longleftrightarrow> sseSubscribeId (mgr (run acts initial_world)) \<noteq> None)
         \<and> \<not> subscribed (cleanupListeners (mgr (run acts initial_world)))
         \<and> \<not> timer_pending (cleanupListeners (mgr (run acts initial_world))))"
proof -
  let ?s = "mgr (run acts initial_world)"
  have ok: "pair_ok ?s"
    using initial_world_ok(1) assms by (rule run_pair_ok)
  then have both: "sseSubscribeId ?s = None \<longleftrightarrow> sseTimeoutId ?s = None"
    by (simp add: pair_ok_def)
  have "registered ?s"
    using initial_world_ok(1,3) assms by (rule run_registered)
  then have reg: "\<forall>h. sseSubscribeId ?s = Some h \<longrightarrow> h \<in> sseHandlers ?s"
    "\<forall>t. sseTimeoutId ?s = Some t \<longrightarrow> t \<in> timers ?s"
    by (auto simp: registered_def)
  note cleared = cleanupListeners_pair_ok [OF ok]
  have idem: "cleanupListeners (cleanupListeners ?s) = cleanupListeners ?s"
    using cleared(1,2) by (rule cleanupListeners_disarmed)
  have world: "(subscribed ?s \<longleftrightarrow> timer_pending ?s)
         \<and> (subscribed ?s \<longleftrightarrow> sseSubscribeId ?s \<noteq> None)
         \<and> \<not> subscribed (cleanupListeners ?s)
         \<and> \<not> timer_pending (cleanupListeners ?s)"
    if disc: "arms_when_disarmed acts initial_world"
  proof -
    have tr: "tracked ?s"
      using initial_world_ok(1,2) assms disc by (rule run_tracked)
    then have "sseHandlers (cleanupListeners ?s) = {}" "timers (cleanupListeners ?s) = {}"
      using ok by (simp_all add: tracked_cleanup tracked_def)
    with tracked_both [OF ok tr] show ?thesis
      by (simp add: subscribed_def timer_pending_def)
  qed
  from both reg cleared idem world show ?thesis by blast
qed

theorem listeners_paired_witness:
  "subscribed (mgr (run [SelectOrganization acme, SaveAutoDiscover,
                         Settle (FolderSaved (Inr acme_folder) 7 9)] initial_world))
   \<and> timer_pending (mgr (run [SelectOrganization acme, SaveAutoDiscover,
                         Settle (FolderSaved (Inr acme_folder) 7 9)] initial_world))
   \<and> sseSubscribeId (mgr (run [SelectOrganization acme, SaveAutoDiscover,
                         Settle (FolderSaved (Inr acme_folder) 7 9)] initial_world)) = Some 7
   \<and> sseTimeoutId (mgr (run [SelectOrganization acme, SaveAutoDiscover,
                         Settle (FolderSaved (Inr acme_folder) 7 9)] initial_world)) \<noteq> None
   \<and> \<not> subscribed (cleanupListeners (mgr (run [SelectOrganization acme, SaveAutoDiscover,
                         Settle (FolderSaved (Inr acme_folder) 7 9)] initial_world)))
   \<and> \<not> timer_pending (cleanupListeners (mgr (run [SelectOrganization acme, SaveAutoDiscover,
                         Settle (FolderSaved (Inr acme_folder) 7 9)] initial_world)))"
proof -
  let ?acts = "[SelectOrganization acme, SaveAutoDiscover,
                Settle (FolderSaved (Inr acme_folder) 7 9)]"
  have truthy: "\<forall>a \<in> set ?acts. truthy_handles a" by simp
  have quiet: "arms_when_disarmed ?acts initial_world"
    by (simp add: run_defs)
  have sub: "sseSubscribeId (mgr (run ?acts initial_world)) = Some 7"
    by (simp add: run_defs)
  from listeners_paired [OF truthy] quiet sub show ?thesis by auto
qed

end
